theory Spec2Isabelle
  imports Main "HOL-Library.AList"
begin

section \<open>Data model\<close>

text \<open>
  The workflow executor simulates a set of tasks with dependencies in discrete time.
  The functional implementation is embedded function by function; JavaScript numbers are
  modelled as \<open>int\<close> (the simulation only adds and compares; the sums of a run are
  shown to stay in the range where doubles are exact), a \<open>Map\<close> as an
  association list in insertion order, and a \<open>Set\<close> as a list in insertion order.
  The lines written to the console and the printed summary are left out: they do not
  change the state.
\<close>

datatype status = Pending | Running | Completed

record Task =
  id_t :: string
  time :: int
  deps :: "string list"

record TaskState = Task +
  status :: status
  startTime :: "int option"
  endTime :: "int option"

record WorkflowState =
  tasks :: "(string \<times> TaskState) list"
  currentTime :: int
  runningTasks :: "string list"
  maxConcurrent :: int

text \<open>
  The only run-time failure of the source is the property access on \<open>undefined\<close> that
  follows \<open>newTasks.get(taskId)!\<close> when a running identifier has no entry.
\<close>

datatype error = TypeError

subsection \<open>Map and Set of the host language\<close>

text \<open>
  \<open>Map.set\<close> replaces the value of a present key in place and appends a new key at the
  end; \<open>Map.get\<close> yields the value or \<open>undefined\<close>; \<open>new Map(entries)\<close> sets the
  entries one after the other. \<open>Set.add\<close> appends an absent element, \<open>Set.delete\<close>
  removes it.
\<close>

definition map_set :: "string \<Rightarrow> 'v \<Rightarrow> (string \<times> 'v) list \<Rightarrow> (string \<times> 'v) list" where
  "map_set k v m = AList.update k v m"

definition map_get :: "(string \<times> 'v) list \<Rightarrow> string \<Rightarrow> 'v option" where
  "map_get m k = map_of m k"

definition new_Map :: "(string \<times> 'v) list \<Rightarrow> (string \<times> 'v) list" where
  "new_Map entries = foldl (\<lambda>m (k, v). map_set k v m) [] entries"

definition set_add :: "string \<Rightarrow> string list \<Rightarrow> string list" where
  "set_add x xs = (if x \<in> set xs then xs else xs @ [x])"

definition set_delete :: "string \<Rightarrow> string list \<Rightarrow> string list" where
  "set_delete x xs = removeAll x xs"

text \<open>
  \<open>forEach\<close> with a body that may throw: the first exception ends the iteration.
\<close>

fun forEach :: "('a \<Rightarrow> 'b \<Rightarrow> error + 'b) \<Rightarrow> 'a list \<Rightarrow> 'b \<Rightarrow> error + 'b" where
  "forEach f [] acc = Inr acc"
| "forEach f (x # xs) acc = (case f x acc of Inl e \<Rightarrow> Inl e | Inr acc' \<Rightarrow> forEach f xs acc')"

section \<open>The functional implementation\<close>

definition createTaskState :: "Task \<Rightarrow> TaskState" where
  "createTaskState task =
     \<lparr>id_t = id_t task, time = time task, deps = deps task,
      status = Pending, startTime = None, endTime = None\<rparr>"

definition initializeWorkflow :: "Task list \<Rightarrow> int \<Rightarrow> WorkflowState" where
  "initializeWorkflow ts mc =
     \<lparr>tasks = new_Map (map (\<lambda>task. (id_t task, createTaskState task)) ts),
      currentTime = 0, runningTasks = [], maxConcurrent = mc\<rparr>"

definition isDependencyCompleted :: "string \<Rightarrow> (string \<times> TaskState) list \<Rightarrow> bool" where
  "isDependencyCompleted dependency tks =
     (case map_get tks dependency of None \<Rightarrow> False | Some task \<Rightarrow> status task = Completed)"

definition canStartTask :: "string \<Rightarrow> WorkflowState \<Rightarrow> bool" where
  "canStartTask taskId s =
     (case map_get (tasks s) taskId of
        None \<Rightarrow> False
      | Some task \<Rightarrow> status task = Pending \<and>
          list_all (\<lambda>depId. isDependencyCompleted depId (tasks s)) (deps task))"

definition getAvailableTasks :: "WorkflowState \<Rightarrow> TaskState list" where
  "getAvailableTasks s = filter (\<lambda>task. canStartTask (id_t task) s) (map snd (tasks s))"

text \<open>
  \<open>task.startTime! + task.time\<close>: the assertion is erased at run time and \<open>null\<close>
  counts as zero in the addition.
\<close>

definition num_or_zero :: "int option \<Rightarrow> int" where
  "num_or_zero v = (case v of None \<Rightarrow> 0 | Some n \<Rightarrow> n)"

text \<open>The body of the loop over the running set in \<open>updateRunningTasks\<close>.\<close>

definition completeTask ::
  "int \<Rightarrow> string \<Rightarrow> (string \<times> TaskState) list \<times> string list
     \<Rightarrow> error + (string \<times> TaskState) list \<times> string list" where
  "completeTask now taskId acc =
     (case acc of (newTasks, newRunningTasks) \<Rightarrow>
        (case map_get newTasks taskId of
           None \<Rightarrow> Inl TypeError
         | Some task \<Rightarrow>
             if num_or_zero (startTime task) + time task \<le> now
             then Inr (map_set taskId (task\<lparr>status := Completed, endTime := Some now\<rparr>) newTasks,
                       set_delete taskId newRunningTasks)
             else Inr (newTasks, newRunningTasks)))"

definition updateRunningTasks :: "WorkflowState \<Rightarrow> error + WorkflowState" where
  "updateRunningTasks s =
     (case forEach (completeTask (currentTime s)) (runningTasks s) (tasks s, runningTasks s) of
        Inl e \<Rightarrow> Inl e
      | Inr (newTasks, newRunningTasks) \<Rightarrow>
          Inr (s\<lparr>tasks := newTasks, runningTasks := newRunningTasks\<rparr>))"

text \<open>
  One iteration of the admission loop of \<open>startNewTasks\<close>, after its two
  exits.
\<close>

definition startTask :: "WorkflowState \<Rightarrow> TaskState \<Rightarrow> WorkflowState" where
  "startTask s taskToStart =
     s\<lparr>tasks := map_set (id_t taskToStart)
                  (taskToStart\<lparr>status := Running, startTime := Some (currentTime s)\<rparr>) (tasks s),
       runningTasks := set_add (id_t taskToStart) (runningTasks s)\<rparr>"

definition pending_count :: "WorkflowState \<Rightarrow> nat" where
  "pending_count s = length (filter (\<lambda>p. status (snd p) = Pending) (tasks s))"

lemma update_pending_less:
  "map_of al k = Some v \<Longrightarrow> status v = Pending \<Longrightarrow> status v' \<noteq> Pending \<Longrightarrow>
   length (filter (\<lambda>p. status (snd p) = Pending) (AList.update k v' al))
     < length (filter (\<lambda>p. status (snd p) = Pending) al)"
  by (induction al) (auto split: if_splits)

lemma startTask_pending_less:
  assumes "getAvailableTasks s = t # rest"
  shows "pending_count (startTask s t) < pending_count s"
proof -
  have "t \<in> set (getAvailableTasks s)" using assms by simp
  then have "canStartTask (id_t t) s" by (simp add: getAvailableTasks_def)
  then obtain v where "map_of (tasks s) (id_t t) = Some v" "status v = Pending"
    by (auto simp: canStartTask_def map_get_def split: option.splits)
  then show ?thesis
    by (simp add: pending_count_def startTask_def map_set_def update_pending_less)
qed

text \<open>
  The admission loop. Every iteration turns one pending entry into a running one, so
  the number of pending entries is a termination measure on every state.
\<close>

function startNewTasks :: "WorkflowState \<Rightarrow> WorkflowState" where
  "startNewTasks s =
     (if int (length (runningTasks s)) < maxConcurrent s
      then (case getAvailableTasks s of
              [] \<Rightarrow> s
            | taskToStart # _ \<Rightarrow> startNewTasks (startTask s taskToStart))
      else s)"
  by pat_completeness auto
termination
  by (relation "measure pending_count") (auto simp: startTask_pending_less)

declare startNewTasks.simps [simp del]

definition hasUnfinishedTasks :: "WorkflowState \<Rightarrow> bool" where
  "hasUnfinishedTasks s = list_ex (\<lambda>task. status task \<noteq> Completed) (map snd (tasks s))"

text \<open>One tick. The result is the new state and the flag "continue".\<close>

definition next_tick :: "WorkflowState \<Rightarrow> error + WorkflowState \<times> bool" where
  "next_tick s =
     (case updateRunningTasks s of
        Inl e \<Rightarrow> Inl e
      | Inr s1 \<Rightarrow>
          (let newState = startNewTasks s1 in
           if runningTasks newState \<noteq> []
           then Inr (newState\<lparr>currentTime := currentTime newState + 1\<rparr>, True)
           else Inr (newState, hasUnfinishedTasks newState)))"

text \<open>
  The driver is a do-while loop with no bound on its iterations: not returning is the
  value \<open>None\<close>.
\<close>

partial_function (option) runAll :: "WorkflowState \<Rightarrow> (error + WorkflowState) option" where
  "runAll s =
     (case next_tick s of
        Inl e \<Rightarrow> Some (Inl e)
      | Inr (state, shouldContinue) \<Rightarrow> if shouldContinue then runAll state else Some (Inr state))"

text \<open>
  The same loop cut off after a given number of ticks, to count them: \<open>run_fuel n s\<close>
  is \<open>None\<close> when the first \<open>n\<close> ticks all report "continue".
\<close>

fun run_fuel :: "nat \<Rightarrow> WorkflowState \<Rightarrow> (error + WorkflowState) option" where
  "run_fuel 0 s = None"
| "run_fuel (Suc n) s =
     (case next_tick s of
        Inl e \<Rightarrow> Some (Inl e)
      | Inr (state, shouldContinue) \<Rightarrow> if shouldContinue then run_fuel n state else Some (Inr state))"

definition tasks_2 :: "Task list" where
  "tasks_2 =
     [\<lparr>id_t = ''A'', time = 3, deps = []\<rparr>,
      \<lparr>id_t = ''B'', time = 2, deps = [''A'']\<rparr>,
      \<lparr>id_t = ''C'', time = 1, deps = [''A'']\<rparr>,
      \<lparr>id_t = ''D'', time = 4, deps = [''B'', ''C'']\<rparr>,
      \<lparr>id_t = ''E'', time = 1, deps = [''D'']\<rparr>]"

section \<open>The driver with and without fuel\<close>

lemma run_fuel_runAll: "run_fuel n s = Some r \<Longrightarrow> runAll s = Some r"
proof (induction n arbitrary: s)
  case 0
  then show ?case by simp
next
  case (Suc n)
  show ?case
  proof (cases "next_tick s")
    case (Inl e)
    with Suc.prems show ?thesis by (subst runAll.simps) simp
  next
    case (Inr p)
    obtain s' c where p: "p = (s', c)" by (cases p)
    show ?thesis
    proof (cases c)
      case True
      with Suc.prems Inr p have "run_fuel n s' = Some r" by simp
      then have "runAll s' = Some r" by (rule Suc.IH)
      with Inr p True show ?thesis by (subst runAll.simps) simp
    next
      case False
      with Suc.prems Inr p show ?thesis by (subst runAll.simps) simp
    qed
  qed
qed

lemma run_fuel_mono: "run_fuel n s = Some r \<Longrightarrow> n \<le> m \<Longrightarrow> run_fuel m s = Some r"
proof (induction n arbitrary: s m)
  case 0
  then show ?case by simp
next
  case (Suc n)
  then obtain m' where m: "m = Suc m'" "n \<le> m'" by (cases m) auto
  show ?case
  proof (cases "next_tick s")
    case (Inl e)
    with Suc.prems m show ?thesis by simp
  next
    case (Inr p)
    obtain s' c where p: "p = (s', c)" by (cases p)
    show ?thesis
    proof (cases c)
      case True
      with Suc.prems Inr p have "run_fuel n s' = Some r" by simp
      then have "run_fuel m' s' = Some r" using m(2) by (rule Suc.IH)
      with Inr p True m show ?thesis by simp
    next
      case False
      with Suc.prems Inr p m show ?thesis by simp
    qed
  qed
qed

section \<open>The completion pass in closed form\<close>

text \<open>
  A running task is done at \<open>now\<close> when its start time plus its duration has been
  reached; the completion pass applies \<open>finish\<close> to every running entry.
\<close>

definition done_at :: "int \<Rightarrow> TaskState \<Rightarrow> bool" where
  "done_at now v = (num_or_zero (startTime v) + time v \<le> now)"

definition finish :: "int \<Rightarrow> TaskState \<Rightarrow> TaskState" where
  "finish now v = (if done_at now v then v\<lparr>status := Completed, endTime := Some now\<rparr> else v)"

lemma done_at_finish [simp]: "done_at now (finish now' v) = done_at now v"
  by (simp add: done_at_def finish_def)

lemma finish_finish [simp]: "finish now (finish now v) = finish now v"
  by (simp add: finish_def done_at_def)

lemma keys_update_present:
  "k \<in> fst ` set al \<Longrightarrow> map fst (AList.update k v al) = map fst al"
  by (simp add: update_keys)

lemma forEach_complete:
  assumes "set xs \<subseteq> fst ` set m"
  shows "\<exists>m'. forEach (completeTask now) xs (m, r) =
            Inr (m', filter (\<lambda>k. \<not> (k \<in> set xs \<and> (\<exists>v. map_of m k = Some v \<and> done_at now v))) r)
          \<and> map fst m' = map fst m
          \<and> (\<forall>k. map_of m' k = (if k \<in> set xs then map_option (finish now) (map_of m k) else map_of m k))"
  using assms
proof (induction xs arbitrary: m r)
  case Nil
  then show ?case by simp
next
  case (Cons x xs)
  from Cons.prems have xin: "x \<in> fst ` set m" and sub: "set xs \<subseteq> fst ` set m" by auto
  from xin obtain v where v: "map_of m x = Some v"
    by (metis domD dom_map_of_conv_image_fst)
  show ?case
  proof (cases "done_at now v")
    case True
    define m1 where "m1 = AList.update x (v\<lparr>status := Completed, endTime := Some now\<rparr>) m"
    have step: "completeTask now x (m, r) = Inr (m1, removeAll x r)"
      using v True by (simp add: completeTask_def map_get_def map_set_def set_delete_def done_at_def m1_def)
    have keys1: "map fst m1 = map fst m" using xin by (simp add: m1_def keys_update_present)
    have mo1: "map_of m1 = (map_of m)(x \<mapsto> finish now v)"
      using True by (simp add: m1_def update_conv' finish_def)
    have "set xs \<subseteq> fst ` set m1" using sub keys1 by (metis set_map)
    from Cons.IH[OF this, of "removeAll x r"] obtain m' where
      fe: "forEach (completeTask now) xs (m1, removeAll x r) =
            Inr (m', filter (\<lambda>k. \<not> (k \<in> set xs \<and> (\<exists>v. map_of m1 k = Some v \<and> done_at now v))) (removeAll x r))"
      and keys': "map fst m' = map fst m1"
      and mo': "\<forall>k. map_of m' k = (if k \<in> set xs then map_option (finish now) (map_of m1 k) else map_of m1 k)"
      by blast
    have filt: "filter (\<lambda>k. \<not> (k \<in> set xs \<and> (\<exists>v. map_of m1 k = Some v \<and> done_at now v))) (removeAll x r)
        = filter (\<lambda>k. \<not> (k \<in> set (x # xs) \<and> (\<exists>v. map_of m k = Some v \<and> done_at now v))) r"
    proof -
      have "removeAll x r = filter (\<lambda>k. k \<noteq> x) r"
        by (induction r) auto
      moreover have "filter (\<lambda>k. \<not> (k \<in> set xs \<and> (\<exists>v. map_of m1 k = Some v \<and> done_at now v)))
            (filter (\<lambda>k. k \<noteq> x) r)
          = filter (\<lambda>k. \<not> (k \<in> set (x # xs) \<and> (\<exists>v. map_of m k = Some v \<and> done_at now v))) r"
        unfolding filter_filter
      proof (rule filter_cong[OF refl])
        fix k
        show "(k \<noteq> x \<and> \<not> (k \<in> set xs \<and> (\<exists>v. map_of m1 k = Some v \<and> done_at now v)))
            = (\<not> (k \<in> set (x # xs) \<and> (\<exists>v. map_of m k = Some v \<and> done_at now v)))"
          using v True by (cases "k = x") (simp_all add: mo1)
      qed
      ultimately show ?thesis by simp
    qed
    have "\<forall>k. map_of m' k = (if k \<in> set (x # xs) then map_option (finish now) (map_of m k) else map_of m k)"
      using mo' v by (auto simp: mo1)
    then show ?thesis using step fe keys' keys1 filt by simp
  next
    case False
    have step: "completeTask now x (m, r) = Inr (m, r)"
      using v False by (simp add: completeTask_def map_get_def done_at_def)
    from Cons.IH[OF sub, of r] obtain m' where
      fe: "forEach (completeTask now) xs (m, r) =
            Inr (m', filter (\<lambda>k. \<not> (k \<in> set xs \<and> (\<exists>v. map_of m k = Some v \<and> done_at now v))) r)"
      and keys': "map fst m' = map fst m"
      and mo': "\<forall>k. map_of m' k = (if k \<in> set xs then map_option (finish now) (map_of m k) else map_of m k)"
      by blast
    have filt: "filter (\<lambda>k. \<not> (k \<in> set xs \<and> (\<exists>v. map_of m k = Some v \<and> done_at now v))) r
        = filter (\<lambda>k. \<not> (k \<in> set (x # xs) \<and> (\<exists>v. map_of m k = Some v \<and> done_at now v))) r"
    proof (rule filter_cong[OF refl])
      fix k
      show "(\<not> (k \<in> set xs \<and> (\<exists>v. map_of m k = Some v \<and> done_at now v)))
          = (\<not> (k \<in> set (x # xs) \<and> (\<exists>v. map_of m k = Some v \<and> done_at now v)))"
        using v False by (cases "k = x") simp_all
    qed
    have "\<forall>k. map_of m' k = (if k \<in> set (x # xs) then map_option (finish now) (map_of m k) else map_of m k)"
      using mo' v False by (auto simp: finish_def)
    then show ?thesis using step fe keys' filt by simp
  qed
qed

lemma forEach_complete_error:
  assumes "\<not> set xs \<subseteq> fst ` set m"
  shows "forEach (completeTask now) xs (m, r) = Inl TypeError"
  using assms
proof (induction xs arbitrary: m r)
  case Nil
  then show ?case by simp
next
  case (Cons x xs)
  show ?case
  proof (cases "map_of m x")
    case None
    then show ?thesis by (simp add: completeTask_def map_get_def)
  next
    case (Some v)
    then have xin: "x \<in> fst ` set m" by (metis domI dom_map_of_conv_image_fst)
    with Cons.prems have nsub: "\<not> set xs \<subseteq> fst ` set m" by auto
    show ?thesis
    proof (cases "done_at now v")
      case True
      define m1 where "m1 = AList.update x (v\<lparr>status := Completed, endTime := Some now\<rparr>) m"
      have "fst ` set m1 = fst ` set m"
        unfolding m1_def dom_update using xin by blast
      with nsub have "\<not> set xs \<subseteq> fst ` set m1" by simp
      then have "forEach (completeTask now) xs (m1, removeAll x r) = Inl TypeError"
        by (rule Cons.IH)
      moreover have "completeTask now x (m, r) = Inr (m1, removeAll x r)"
        using Some True
        by (simp add: completeTask_def map_get_def map_set_def set_delete_def done_at_def m1_def)
      ultimately show ?thesis by simp
    next
      case False
      have "forEach (completeTask now) xs (m, r) = Inl TypeError"
        using nsub by (rule Cons.IH)
      moreover have "completeTask now x (m, r) = Inr (m, r)"
        using Some False by (simp add: completeTask_def map_get_def done_at_def)
      ultimately show ?thesis by simp
    qed
  qed
qed

section \<open>Passes, ticks and reachable states\<close>

text \<open>
  A run is a sequence of passes: the completion pass of a tick, each single admission of
  its admission loop, and the advance of the clock. A state is reachable when a sequence
  of passes leads to it from an initial state. Every state the driver goes through,
  between any two passes of any tick, is reachable in this sense.
\<close>

inductive step :: "WorkflowState \<Rightarrow> WorkflowState \<Rightarrow> bool" where
  completion: "updateRunningTasks s = Inr s' \<Longrightarrow> step s s'"
| admission: "int (length (runningTasks s)) < maxConcurrent s \<Longrightarrow>
     getAvailableTasks s = taskToStart # rest \<Longrightarrow> step s (startTask s taskToStart)"
| advance: "runningTasks s \<noteq> [] \<Longrightarrow> step s (s\<lparr>currentTime := currentTime s + 1\<rparr>)"

inductive reachable :: "Task list \<Rightarrow> int \<Rightarrow> WorkflowState \<Rightarrow> bool" for ts mc where
  initial: "reachable ts mc (initializeWorkflow ts mc)"
| after: "reachable ts mc s \<Longrightarrow> step s s' \<Longrightarrow> reachable ts mc s'"

lemma startNewTasks_steps: "step\<^sup>*\<^sup>* s (startNewTasks s)"
proof (induction s rule: startNewTasks.induct)
  case (1 s)
  show ?case
  proof (cases "int (length (runningTasks s)) < maxConcurrent s")
    case False
    then show ?thesis by (subst startNewTasks.simps) simp
  next
    case True
    show ?thesis
    proof (cases "getAvailableTasks s")
      case Nil
      with True show ?thesis by (subst startNewTasks.simps) simp
    next
      case (Cons t rest)
      have "step s (startTask s t)" using True Cons by (rule step.admission)
      moreover have "step\<^sup>*\<^sup>* (startTask s t) (startNewTasks (startTask s t))"
        using True Cons by (rule "1.IH")
      moreover have "startNewTasks s = startNewTasks (startTask s t)"
        using True Cons by (subst startNewTasks.simps) simp
      ultimately show ?thesis by simp
    qed
  qed
qed

lemma next_tick_Inr:
  assumes "next_tick s = Inr (s', c)"
  shows "\<exists>s1. updateRunningTasks s = Inr s1 \<and>
     (if runningTasks (startNewTasks s1) \<noteq> []
      then s' = (startNewTasks s1)\<lparr>currentTime := currentTime (startNewTasks s1) + 1\<rparr> \<and> c
      else s' = startNewTasks s1 \<and> c = hasUnfinishedTasks (startNewTasks s1))"
  using assms by (auto simp: next_tick_def Let_def split: sum.splits if_splits)

lemma next_tick_steps:
  assumes "next_tick s = Inr (s', c)"
  shows "step\<^sup>*\<^sup>* s s'"
proof -
  from next_tick_Inr[OF assms] obtain s1 where u: "updateRunningTasks s = Inr s1"
    and ab: "if runningTasks (startNewTasks s1) \<noteq> []
      then s' = (startNewTasks s1)\<lparr>currentTime := currentTime (startNewTasks s1) + 1\<rparr> \<and> c
      else s' = startNewTasks s1 \<and> c = hasUnfinishedTasks (startNewTasks s1)"
    by blast
  have s01: "step s s1" using u by (rule step.completion)
  have s12: "step\<^sup>*\<^sup>* s1 (startNewTasks s1)" by (rule startNewTasks_steps)
  show ?thesis
  proof (cases "runningTasks (startNewTasks s1) = []")
    case True
    with ab s01 s12 show ?thesis by simp
  next
    case False
    then have "step (startNewTasks s1) s'" using ab step.advance by simp
    with s01 s12 show ?thesis by simp
  qed
qed

lemma reachable_steps:
  assumes "step\<^sup>*\<^sup>* s s'" and "reachable ts mc s"
  shows "reachable ts mc s'"
  using assms by (induction rule: rtranclp_induct) (auto intro: reachable.after)

lemma reachable_next_tick:
  "reachable ts mc s \<Longrightarrow> next_tick s = Inr (s', c) \<Longrightarrow> reachable ts mc s'"
  using reachable_steps[OF next_tick_steps] by blast

subsection \<open>new Map\<close>

lemma new_Map_snoc: "new_Map (es @ [(k, v)]) = AList.update k v (new_Map es)"
  by (simp add: new_Map_def map_set_def)

lemma new_Map_Nil [simp]: "new_Map [] = []"
  by (simp add: new_Map_def)

lemma distinct_new_Map: "distinct (map fst (new_Map es))"
proof (induction es rule: rev_induct)
  case Nil
  then show ?case by simp
next
  case (snoc e es)
  then show ?case by (cases e) (simp add: new_Map_snoc distinct_update)
qed

lemma map_of_new_Map: "map_of (new_Map es) = map_of (rev es)"
proof (induction es rule: rev_induct)
  case Nil
  then show ?case by simp
next
  case (snoc e es)
  then show ?case by (cases e) (simp add: new_Map_snoc update_conv')
qed

lemma keys_new_Map: "map fst (new_Map es) = rev (remdups (rev (map fst es)))"
proof (induction es rule: rev_induct)
  case Nil
  then show ?case by simp
next
  case (snoc e es)
  obtain k v where e: "e = (k, v)" by (cases e)
  have "set (map fst (new_Map es)) = set (map fst es)"
    by (simp only: snoc.IH set_rev set_remdups)
  then have "k \<in> set (map fst (new_Map es)) \<longleftrightarrow> k \<in> fst ` set es" by simp
  then show ?case using snoc.IH
    by (simp add: e new_Map_snoc update_keys)
qed

lemma new_Map_entry:
  assumes "map_of (new_Map es) k = Some v"
  shows "(k, v) \<in> set es"
proof -
  from assms have "map_of (rev es) k = Some v" by (simp add: map_of_new_Map)
  then have "(k, v) \<in> set (rev es)" by (rule map_of_SomeD)
  then show ?thesis by simp
qed

lemma init_entry:
  assumes "map_of (tasks (initializeWorkflow ts mc)) k = Some v"
  shows "\<exists>t \<in> set ts. id_t t = k \<and> v = createTaskState t"
proof -
  from assms have "map_of (new_Map (map (\<lambda>task. (id_t task, createTaskState task)) ts)) k = Some v"
    by (simp add: initializeWorkflow_def)
  then have "(k, v) \<in> set (map (\<lambda>task. (id_t task, createTaskState task)) ts)"
    by (rule new_Map_entry)
  then show ?thesis by auto
qed

lemma init_keys: "map fst (tasks (initializeWorkflow ts mc)) = rev (remdups (rev (map id_t ts)))"
  by (simp add: initializeWorkflow_def keys_new_Map comp_def)

subsection \<open>Well-formed states\<close>

definition wf_state :: "WorkflowState \<Rightarrow> bool" where
  "wf_state s \<longleftrightarrow>
     distinct (map fst (tasks s)) \<and>
     (\<forall>k v. map_of (tasks s) k = Some v \<longrightarrow> id_t v = k) \<and>
     distinct (runningTasks s) \<and>
     (\<forall>k. k \<in> set (runningTasks s) \<longleftrightarrow> (\<exists>v. map_of (tasks s) k = Some v \<and> status v = Running))"

lemma wf_state_init: "wf_state (initializeWorkflow ts mc)"
proof -
  have "distinct (map fst (tasks (initializeWorkflow ts mc)))"
    by (simp add: initializeWorkflow_def distinct_new_Map)
  moreover have "\<forall>k v. map_of (tasks (initializeWorkflow ts mc)) k = Some v \<longrightarrow> id_t v = k \<and> status v = Pending"
    using init_entry by (fastforce simp: createTaskState_def)
  moreover have "runningTasks (initializeWorkflow ts mc) = []"
    by (simp add: initializeWorkflow_def)
  ultimately show ?thesis unfolding wf_state_def by simp
qed

lemma wf_running_keys:
  assumes "wf_state s"
  shows "set (runningTasks s) \<subseteq> fst ` set (tasks s)"
proof
  fix k assume "k \<in> set (runningTasks s)"
  with assms obtain v where "map_of (tasks s) k = Some v" unfolding wf_state_def by blast
  then show "k \<in> fst ` set (tasks s)" by (metis domI dom_map_of_conv_image_fst)
qed

text \<open>The completion pass in closed form.\<close>

lemma updateRunningTasks_char:
  assumes "set (runningTasks s) \<subseteq> fst ` set (tasks s)"
  shows "\<exists>s1. updateRunningTasks s = Inr s1
     \<and> currentTime s1 = currentTime s \<and> maxConcurrent s1 = maxConcurrent s
     \<and> map fst (tasks s1) = map fst (tasks s)
     \<and> (\<forall>k. map_of (tasks s1) k =
           (if k \<in> set (runningTasks s) then map_option (finish (currentTime s)) (map_of (tasks s) k)
            else map_of (tasks s) k))
     \<and> runningTasks s1 =
         filter (\<lambda>k. \<not> (\<exists>v. map_of (tasks s) k = Some v \<and> done_at (currentTime s) v)) (runningTasks s)"
proof -
  from forEach_complete[OF assms, of "currentTime s" "runningTasks s"] obtain m' where
    fe: "forEach (completeTask (currentTime s)) (runningTasks s) (tasks s, runningTasks s) =
          Inr (m', filter (\<lambda>k. \<not> (k \<in> set (runningTasks s) \<and>
                 (\<exists>v. map_of (tasks s) k = Some v \<and> done_at (currentTime s) v))) (runningTasks s))"
    and keys: "map fst m' = map fst (tasks s)"
    and mo: "\<forall>k. map_of m' k =
           (if k \<in> set (runningTasks s) then map_option (finish (currentTime s)) (map_of (tasks s) k)
            else map_of (tasks s) k)"
    by blast
  have filt: "filter (\<lambda>k. \<not> (k \<in> set (runningTasks s) \<and>
                 (\<exists>v. map_of (tasks s) k = Some v \<and> done_at (currentTime s) v))) (runningTasks s)
      = filter (\<lambda>k. \<not> (\<exists>v. map_of (tasks s) k = Some v \<and> done_at (currentTime s) v)) (runningTasks s)"
    by (rule filter_cong[OF refl]) simp
  show ?thesis
    unfolding updateRunningTasks_def fe using keys mo filt by simp
qed

lemma wf_distinct_keys: "wf_state s \<Longrightarrow> distinct (map fst (tasks s))"
  unfolding wf_state_def by blast

lemma wf_id: "wf_state s \<Longrightarrow> map_of (tasks s) k = Some v \<Longrightarrow> id_t v = k"
  unfolding wf_state_def by blast

lemma wf_distinct_running: "wf_state s \<Longrightarrow> distinct (runningTasks s)"
  unfolding wf_state_def by blast

lemma wf_running_iff:
  "wf_state s \<Longrightarrow> k \<in> set (runningTasks s) \<longleftrightarrow> (\<exists>v. map_of (tasks s) k = Some v \<and> status v = Running)"
  unfolding wf_state_def by blast

lemma wf_stateI:
  assumes "distinct (map fst (tasks s))"
    and "\<And>k v. map_of (tasks s) k = Some v \<Longrightarrow> id_t v = k"
    and "distinct (runningTasks s)"
    and "\<And>k. k \<in> set (runningTasks s) \<longleftrightarrow> (\<exists>v. map_of (tasks s) k = Some v \<and> status v = Running)"
  shows "wf_state s"
  unfolding wf_state_def using assms by blast

lemma wf_entry_map_of:
  assumes "wf_state s" and "(k, v) \<in> set (tasks s)"
  shows "map_of (tasks s) k = Some v"
  using assms by (simp add: wf_distinct_keys)

lemma wf_snd_id:
  assumes "wf_state s" and "v \<in> snd ` set (tasks s)"
  shows "map_of (tasks s) (id_t v) = Some v"
proof -
  from assms(2) obtain k where kv: "(k, v) \<in> set (tasks s)" by auto
  then have m: "map_of (tasks s) k = Some v" using assms(1) by (rule wf_entry_map_of[rotated])
  with assms(1) have "id_t v = k" by (rule wf_id)
  with m show ?thesis by simp
qed

lemma available_canStart:
  assumes "getAvailableTasks s = t # rest"
  shows "canStartTask (id_t t) s" and "t \<in> snd ` set (tasks s)"
proof -
  have "t \<in> set (getAvailableTasks s)" using assms by simp
  then show "canStartTask (id_t t) s" and "t \<in> snd ` set (tasks s)"
    by (auto simp: getAvailableTasks_def)
qed

lemma canStartTask_iff:
  "canStartTask k s \<longleftrightarrow>
     (\<exists>v. map_of (tasks s) k = Some v \<and> status v = Pending \<and>
        (\<forall>d \<in> set (deps v). \<exists>vd. map_of (tasks s) d = Some vd \<and> status vd = Completed))"
  by (auto simp: canStartTask_def isDependencyCompleted_def map_get_def list_all_iff
      split: option.splits)

lemma admission_char:
  assumes wf: "wf_state s" and av: "getAvailableTasks s = t # rest"
  shows "map_of (tasks s) (id_t t) = Some t"
    and "status t = Pending"
    and "\<forall>d \<in> set (deps t). \<exists>vd. map_of (tasks s) d = Some vd \<and> status vd = Completed"
    and "id_t t \<notin> set (runningTasks s)"
    and "runningTasks (startTask s t) = runningTasks s @ [id_t t]"
    and "map fst (tasks (startTask s t)) = map fst (tasks s)"
    and "map_of (tasks (startTask s t)) =
          (map_of (tasks s))(id_t t \<mapsto> t\<lparr>status := Running, startTime := Some (currentTime s)\<rparr>)"
    and "currentTime (startTask s t) = currentTime s"
    and "maxConcurrent (startTask s t) = maxConcurrent s"
proof -
  from av have cs: "canStartTask (id_t t) s" and tin: "t \<in> snd ` set (tasks s)"
    by (rule available_canStart)+
  from wf tin show m: "map_of (tasks s) (id_t t) = Some t" by (rule wf_snd_id)
  from cs m show p: "status t = Pending"
    and "\<forall>d \<in> set (deps t). \<exists>vd. map_of (tasks s) d = Some vd \<and> status vd = Completed"
    by (auto simp: canStartTask_iff)
  from m p show nr: "id_t t \<notin> set (runningTasks s)" by (simp add: wf_running_iff[OF wf])
  then show "runningTasks (startTask s t) = runningTasks s @ [id_t t]"
    by (simp add: startTask_def set_add_def)
  have "id_t t \<in> fst ` set (tasks s)" using m by (metis domI dom_map_of_conv_image_fst)
  then show "map fst (tasks (startTask s t)) = map fst (tasks s)"
    by (simp add: startTask_def map_set_def keys_update_present)
  show "map_of (tasks (startTask s t)) =
          (map_of (tasks s))(id_t t \<mapsto> t\<lparr>status := Running, startTime := Some (currentTime s)\<rparr>)"
    by (simp add: startTask_def map_set_def update_conv')
  show "currentTime (startTask s t) = currentTime s" by (simp add: startTask_def)
  show "maxConcurrent (startTask s t) = maxConcurrent s" by (simp add: startTask_def)
qed

lemma updateRunningTasks_Inr_keys:
  assumes "updateRunningTasks s = Inr s1"
  shows "set (runningTasks s) \<subseteq> fst ` set (tasks s)"
proof (rule ccontr)
  assume "\<not> set (runningTasks s) \<subseteq> fst ` set (tasks s)"
  then have "forEach (completeTask (currentTime s)) (runningTasks s) (tasks s, runningTasks s) = Inl TypeError"
    by (rule forEach_complete_error)
  with assms show False by (simp add: updateRunningTasks_def)
qed

lemma completion_char:
  assumes "updateRunningTasks s = Inr s1"
  shows "currentTime s1 = currentTime s" and "maxConcurrent s1 = maxConcurrent s"
    and "map fst (tasks s1) = map fst (tasks s)"
    and "\<And>k. map_of (tasks s1) k =
           (if k \<in> set (runningTasks s) then map_option (finish (currentTime s)) (map_of (tasks s) k)
            else map_of (tasks s) k)"
    and "runningTasks s1 =
         filter (\<lambda>k. \<not> (\<exists>v. map_of (tasks s) k = Some v \<and> done_at (currentTime s) v)) (runningTasks s)"
  using updateRunningTasks_char[OF updateRunningTasks_Inr_keys[OF assms]] assms
  by auto

lemma wf_state_completion:
  assumes wf: "wf_state s" and u: "updateRunningTasks s = Inr s1"
  shows "wf_state s1"
proof (rule wf_stateI)
  note c = completion_char[OF u]
  show "distinct (map fst (tasks s1))" using wf_distinct_keys[OF wf] c(3) by simp
  show "distinct (runningTasks s1)" using wf_distinct_running[OF wf] by (simp add: c(5))
  show "id_t v = k" if "map_of (tasks s1) k = Some v" for k v
  proof -
    from that obtain v0 where "map_of (tasks s) k = Some v0" "id_t v = id_t v0"
      by (auto simp: c(4) finish_def split: if_splits)
    with wf show "id_t v = k" by (simp add: wf_id)
  qed
  show "k \<in> set (runningTasks s1) \<longleftrightarrow> (\<exists>v. map_of (tasks s1) k = Some v \<and> status v = Running)" for k
  proof (cases "k \<in> set (runningTasks s)")
    case True
    then obtain v where v: "map_of (tasks s) k = Some v" "status v = Running"
      using wf_running_iff[OF wf, of k] by blast
    with True show ?thesis by (simp add: c(4) c(5) finish_def)
  next
    case False
    then have "\<not> (\<exists>v. map_of (tasks s) k = Some v \<and> status v = Running)"
      using wf_running_iff[OF wf, of k] by blast
    with False show ?thesis by (simp add: c(4) c(5))
  qed
qed

lemma wf_state_admission:
  assumes wf: "wf_state s" and av: "getAvailableTasks s = t # rest"
  shows "wf_state (startTask s t)"
proof (rule wf_stateI)
  note a = admission_char[OF wf av]
  show "distinct (map fst (tasks (startTask s t)))" using wf_distinct_keys[OF wf] a(6) by simp
  show "distinct (runningTasks (startTask s t))" using wf_distinct_running[OF wf] a(4) by (simp add: a(5))
  show "id_t v = k" if "map_of (tasks (startTask s t)) k = Some v" for k v
  proof (cases "k = id_t t")
    case True
    with that show ?thesis by (auto simp: a(7))
  next
    case False
    with that have "map_of (tasks s) k = Some v" by (simp add: a(7))
    with wf show ?thesis by (rule wf_id)
  qed
  show "k \<in> set (runningTasks (startTask s t)) \<longleftrightarrow>
      (\<exists>v. map_of (tasks (startTask s t)) k = Some v \<and> status v = Running)" for k
  proof (cases "k = id_t t")
    case True
    then show ?thesis by (simp add: a(5) a(7))
  next
    case False
    then show ?thesis using wf_running_iff[OF wf, of k] by (simp add: a(5) a(7))
  qed
qed

lemma wf_state_advance: "wf_state s \<Longrightarrow> wf_state (s\<lparr>currentTime := n\<rparr>)"
  by (simp add: wf_state_def)

lemma wf_state_step: "step s s' \<Longrightarrow> wf_state s \<Longrightarrow> wf_state s'"
  by (induction rule: step.induct)
    (auto intro: wf_state_completion wf_state_admission wf_state_advance)

lemma reachable_wf: "reachable ts mc s \<Longrightarrow> wf_state s"
  by (induction rule: reachable.induct) (auto intro: wf_state_init wf_state_step)

lemma reachable_total:
  assumes "reachable ts mc s"
  shows "\<exists>s' c. next_tick s = Inr (s', c)"
proof -
  from assms have "wf_state s" by (rule reachable_wf)
  then have "set (runningTasks s) \<subseteq> fst ` set (tasks s)" by (rule wf_running_keys)
  from updateRunningTasks_char[OF this] obtain s1 where "updateRunningTasks s = Inr s1" by blast
  then show ?thesis by (auto simp: next_tick_def Let_def)
qed

section \<open>Evaluation on concrete inputs\<close>

lemmas eval_defs =
  initializeWorkflow_def new_Map_def map_set_def map_get_def set_add_def set_delete_def
  createTaskState_def next_tick_def updateRunningTasks_def completeTask_def
  startNewTasks.simps getAvailableTasks_def canStartTask_def isDependencyCompleted_def
  startTask_def hasUnfinishedTasks_def num_or_zero_def Let_def

section \<open>Scheduling invariant: start and end times\<close>

text \<open>
  Every entry of a reachable state is consistent with its status: a pending task has no
  times, a running task has a start time not in the future and all its dependencies
  completed by then, a completed task has both times.
\<close>

definition deps_done_by :: "WorkflowState \<Rightarrow> TaskState \<Rightarrow> int \<Rightarrow> bool" where
  "deps_done_by s v st \<longleftrightarrow>
     (\<forall>d \<in> set (deps v). \<exists>vd e. map_of (tasks s) d = Some vd \<and> status vd = Completed \<and>
        endTime vd = Some e \<and> e \<le> st)"

definition entry_ok :: "WorkflowState \<Rightarrow> TaskState \<Rightarrow> bool" where
  "entry_ok s v \<longleftrightarrow>
     (case status v of
        Pending \<Rightarrow> startTime v = None \<and> endTime v = None
      | Running \<Rightarrow> endTime v = None \<and>
          (\<exists>st. startTime v = Some st \<and> st \<le> currentTime s \<and> deps_done_by s v st)
      | Completed \<Rightarrow>
          (\<exists>st e. startTime v = Some st \<and> endTime v = Some e \<and> st \<le> currentTime s \<and>
             e \<le> currentTime s \<and> deps_done_by s v st))"

definition sched_inv :: "WorkflowState \<Rightarrow> bool" where
  "sched_inv s \<longleftrightarrow> (\<forall>k v. map_of (tasks s) k = Some v \<longrightarrow> entry_ok s v)"

definition completed_stable :: "WorkflowState \<Rightarrow> WorkflowState \<Rightarrow> bool" where
  "completed_stable s s' \<longleftrightarrow>
     (\<forall>d vd. map_of (tasks s) d = Some vd \<and> status vd = Completed \<longrightarrow> map_of (tasks s') d = Some vd)"

lemma deps_done_by_stable:
  assumes "deps_done_by s v st" and "completed_stable s s'" and "deps v' = deps v"
  shows "deps_done_by s' v' st"
  unfolding deps_done_by_def
proof
  fix d assume "d \<in> set (deps v')"
  with assms(1,3) obtain vd e where "map_of (tasks s) d = Some vd" "status vd = Completed"
    "endTime vd = Some e" "e \<le> st"
    unfolding deps_done_by_def by auto
  moreover from this assms(2) have "map_of (tasks s') d = Some vd"
    unfolding completed_stable_def by blast
  ultimately show "\<exists>vd e. map_of (tasks s') d = Some vd \<and> status vd = Completed \<and>
      endTime vd = Some e \<and> e \<le> st" by blast
qed

lemma entry_ok_stable:
  assumes ok: "entry_ok s v" and st: "completed_stable s s'" and le: "currentTime s \<le> currentTime s'"
  shows "entry_ok s' v"
proof (cases "status v")
  case Pending
  with ok show ?thesis by (simp add: entry_ok_def)
next
  case Running
  with ok obtain b where b: "endTime v = None" "startTime v = Some b" "b \<le> currentTime s"
    "deps_done_by s v b" by (auto simp: entry_ok_def)
  from b(4) st have "deps_done_by s' v b" by (rule deps_done_by_stable) simp
  with b le Running show ?thesis by (simp add: entry_ok_def)
next
  case Completed
  with ok obtain b e where b: "endTime v = Some e" "startTime v = Some b" "b \<le> currentTime s"
    "e \<le> currentTime s" "deps_done_by s v b" by (auto simp: entry_ok_def)
  from b(5) st have "deps_done_by s' v b" by (rule deps_done_by_stable) simp
  with b le Completed show ?thesis by (simp add: entry_ok_def)
qed

lemma completion_completed_stable:
  assumes wf: "wf_state s" and u: "updateRunningTasks s = Inr s1"
  shows "completed_stable s s1"
  unfolding completed_stable_def
proof (intro allI impI)
  fix d vd assume a: "map_of (tasks s) d = Some vd \<and> status vd = Completed"
  then have "d \<notin> set (runningTasks s)" using wf_running_iff[OF wf, of d] by auto
  with a show "map_of (tasks s1) d = Some vd" by (simp add: completion_char(4)[OF u])
qed

lemma admission_completed_stable:
  assumes wf: "wf_state s" and av: "getAvailableTasks s = t # rest"
  shows "completed_stable s (startTask s t)"
  unfolding completed_stable_def
proof (intro allI impI)
  note a = admission_char[OF wf av]
  fix d vd assume h: "map_of (tasks s) d = Some vd \<and> status vd = Completed"
  with a(1,2) have "d \<noteq> id_t t" by auto
  with h show "map_of (tasks (startTask s t)) d = Some vd" by (simp add: a(7))
qed

lemma sched_inv_completion:
  assumes wf: "wf_state s" and inv: "sched_inv s" and u: "updateRunningTasks s = Inr s1"
  shows "sched_inv s1"
  unfolding sched_inv_def
proof (intro allI impI)
  note c = completion_char[OF u]
  have stable: "completed_stable s s1" using wf u by (rule completion_completed_stable)
  fix k v1 assume m1: "map_of (tasks s1) k = Some v1"
  then obtain v where m: "map_of (tasks s) k = Some v"
    and v1: "v1 = (if k \<in> set (runningTasks s) then finish (currentTime s) v else v)"
    by (auto simp: c(4) split: if_splits)
  from inv m have ok: "entry_ok s v" by (simp add: sched_inv_def)
  have ok1: "entry_ok s1 v" using ok stable by (rule entry_ok_stable) (simp add: c(1))
  show "entry_ok s1 v1"
  proof (cases "k \<in> set (runningTasks s) \<and> done_at (currentTime s) v")
    case False
    then have "v1 = v" using v1 by (auto simp: finish_def)
    with ok1 show ?thesis by simp
  next
    case True
    then have v1': "v1 = v\<lparr>status := Completed, endTime := Some (currentTime s)\<rparr>"
      using v1 by (simp add: finish_def)
    from True m have "status v = Running" using wf_running_iff[OF wf, of k] by auto
    with ok1 obtain b where b: "startTime v = Some b" "b \<le> currentTime s1" "deps_done_by s1 v b"
      by (auto simp: entry_ok_def)
    from b(3) have "deps_done_by s1 v1 b" unfolding deps_done_by_def v1' by simp
    with b show ?thesis by (simp add: entry_ok_def v1' c(1))
  qed
qed

lemma sched_inv_admission:
  assumes wf: "wf_state s" and inv: "sched_inv s" and av: "getAvailableTasks s = t # rest"
  shows "sched_inv (startTask s t)"
  unfolding sched_inv_def
proof (intro allI impI)
  note a = admission_char[OF wf av]
  have stable: "completed_stable s (startTask s t)" using wf av by (rule admission_completed_stable)
  fix k v1 assume m1: "map_of (tasks (startTask s t)) k = Some v1"
  show "entry_ok (startTask s t) v1"
  proof (cases "k = id_t t")
    case False
    with m1 have "map_of (tasks s) k = Some v1" by (simp add: a(7))
    with inv have "entry_ok s v1" by (simp add: sched_inv_def)
    then show ?thesis using stable by (rule entry_ok_stable) (simp add: a(8))
  next
    case True
    with m1 have v1: "v1 = t\<lparr>status := Running, startTime := Some (currentTime s)\<rparr>"
      by (simp add: a(7))
    from inv a(1) have "entry_ok s t" by (simp add: sched_inv_def)
    with a(2) have e0: "endTime t = None" by (simp add: entry_ok_def)
    have "deps_done_by s t (currentTime s)"
      unfolding deps_done_by_def
    proof
      fix d assume "d \<in> set (deps t)"
      with a(3) obtain vd where vd: "map_of (tasks s) d = Some vd" "status vd = Completed" by blast
      with inv have "entry_ok s vd" by (simp add: sched_inv_def)
      with vd(2) obtain e where "endTime vd = Some e" "e \<le> currentTime s"
        by (auto simp: entry_ok_def)
      with vd show "\<exists>vd e. map_of (tasks s) d = Some vd \<and> status vd = Completed \<and>
          endTime vd = Some e \<and> e \<le> currentTime s" by blast
    qed
    then have "deps_done_by (startTask s t) v1 (currentTime s)"
      using stable by (rule deps_done_by_stable) (simp add: v1)
    with e0 show ?thesis by (simp add: entry_ok_def v1 a(8))
  qed
qed

lemma sched_inv_advance:
  assumes "sched_inv s"
  shows "sched_inv (s\<lparr>currentTime := currentTime s + 1\<rparr>)"
  unfolding sched_inv_def
proof (intro allI impI)
  fix k v assume "map_of (tasks (s\<lparr>currentTime := currentTime s + 1\<rparr>)) k = Some v"
  with assms have "entry_ok s v" by (simp add: sched_inv_def)
  then show "entry_ok (s\<lparr>currentTime := currentTime s + 1\<rparr>) v"
    by (rule entry_ok_stable) (simp_all add: completed_stable_def)
qed

lemma sched_inv_step: "step s s' \<Longrightarrow> wf_state s \<Longrightarrow> sched_inv s \<Longrightarrow> sched_inv s'"
proof (induction rule: step.induct)
  case (completion s s')
  then show ?case by (simp add: sched_inv_completion)
next
  case (admission s taskToStart rest)
  then show ?case by (simp add: sched_inv_admission)
next
  case (advance s)
  then show ?case by (simp add: sched_inv_advance)
qed

lemma sched_inv_init: "sched_inv (initializeWorkflow ts mc)"
  unfolding sched_inv_def
proof (intro allI impI)
  fix k v assume "map_of (tasks (initializeWorkflow ts mc)) k = Some v"
  then obtain t where "v = createTaskState t" using init_entry by blast
  then show "entry_ok (initializeWorkflow ts mc) v" by (simp add: entry_ok_def createTaskState_def)
qed

lemma reachable_sched_inv: "reachable ts mc s \<Longrightarrow> sched_inv s"
proof (induction rule: reachable.induct)
  case initial
  show ?case by (rule sched_inv_init)
next
  case (after s s')
  from after(2) reachable_wf[OF after(1)] after(3) show ?case by (rule sched_inv_step)
qed

section \<open>Single passes: admissions and the running set\<close>

fun tick_n :: "nat \<Rightarrow> WorkflowState \<Rightarrow> WorkflowState" where
  "tick_n 0 s = s"
| "tick_n (Suc n) s = (case next_tick s of Inl e \<Rightarrow> s | Inr (s', c) \<Rightarrow> tick_n n s')"

lemma tick_n_steps: "step\<^sup>*\<^sup>* s (tick_n n s)"
proof (induction n arbitrary: s)
  case 0
  then show ?case by simp
next
  case (Suc n)
  show ?case
  proof (cases "next_tick s")
    case (Inl e)
    then show ?thesis by simp
  next
    case (Inr p)
    obtain s' c where p: "p = (s', c)" by (cases p)
    from Inr p have "step\<^sup>*\<^sup>* s s'" by (simp add: next_tick_steps)
    moreover have "step\<^sup>*\<^sup>* s' (tick_n n s')" by (rule Suc.IH)
    ultimately show ?thesis using Inr p by simp
  qed
qed

lemma reachable_tick_n: "reachable ts mc (tick_n n (initializeWorkflow ts mc))"
  using tick_n_steps reachable.initial by (rule reachable_steps)

lemma step_running_origin:
  assumes st: "step s s'" and wf: "wf_state s"
    and m': "map_of (tasks s') k = Some v'" and r': "status v' = Running"
  shows "\<exists>v. map_of (tasks s) k = Some v \<and>
           (status v = Running \<or>
            (status v = Pending \<and> startTime v' = Some (currentTime s) \<and>
             (\<forall>d \<in> set (deps v). \<exists>vd. map_of (tasks s) d = Some vd \<and> status vd = Completed)))"
  using st wf m' r'
proof (induction rule: step.induct)
  case (completion s s1)
  note c = completion_char[OF completion(1)]
  from completion(3) obtain v where m: "map_of (tasks s) k = Some v"
    and v1: "v' = (if k \<in> set (runningTasks s) then finish (currentTime s) v else v)"
    by (auto simp: c(4) split: if_splits)
  from v1 completion(4) have "status v = Running" by (auto simp: finish_def split: if_splits)
  with m show ?case by blast
next
  case (admission s t rest)
  note a = admission_char[OF admission(3) admission(2)]
  show ?case
  proof (cases "k = id_t t")
    case True
    with admission(4) have "v' = t\<lparr>status := Running, startTime := Some (currentTime s)\<rparr>"
      by (simp add: a(7))
    then have "startTime v' = Some (currentTime s)" by simp
    with True a(1,2,3) show ?thesis by blast
  next
    case False
    with admission(4) have "map_of (tasks s) k = Some v'" by (simp add: a(7))
    with admission(5) show ?thesis by blast
  qed
next
  case (advance s)
  then show ?case by auto
qed

lemma started_deps_done:
  assumes inv: "sched_inv s" and m: "map_of (tasks s) k = Some v"
    and st: "startTime v = Some b" and d: "d \<in> set (deps v)"
  shows "\<exists>vd e. map_of (tasks s) d = Some vd \<and> status vd = Completed \<and> endTime vd = Some e \<and> e \<le> b"
proof -
  from inv m have ok: "entry_ok s v" by (simp add: sched_inv_def)
  with st have "deps_done_by s v b" by (cases "status v") (auto simp: entry_ok_def)
  with d show ?thesis unfolding deps_done_by_def by blast
qed

lemma running_count:
  assumes wf: "wf_state s"
  shows "length (filter (\<lambda>p. status (snd p) = Running) (tasks s)) = length (runningTasks s)"
proof -
  let ?R = "filter (\<lambda>p. status (snd p) = Running) (tasks s)"
  have dk: "distinct (map fst (tasks s))" using wf by (rule wf_distinct_keys)
  then have dR: "distinct (map fst ?R)" by (rule distinct_map_filter)
  have "set (map fst ?R) = set (runningTasks s)"
  proof (intro set_eqI iffI)
    fix k assume "k \<in> set (map fst ?R)"
    then obtain v where "(k, v) \<in> set (tasks s)" "status v = Running" by auto
    with dk have "map_of (tasks s) k = Some v \<and> status v = Running" by simp
    then show "k \<in> set (runningTasks s)" using wf_running_iff[OF wf, of k] by blast
  next
    fix k assume "k \<in> set (runningTasks s)"
    then obtain v where "map_of (tasks s) k = Some v" "status v = Running"
      using wf_running_iff[OF wf, of k] by blast
    then have "(k, v) \<in> set ?R" by (auto dest: map_of_SomeD)
    then show "k \<in> set (map fst ?R)" by force
  qed
  then have "card (set (map fst ?R)) = card (set (runningTasks s))" by (rule arg_cong)
  moreover have "card (set (map fst ?R)) = length (map fst ?R)" using dR by (rule distinct_card)
  moreover have "card (set (runningTasks s)) = length (runningTasks s)"
    using wf_distinct_running[OF wf] by (rule distinct_card)
  ultimately have "length (map fst ?R) = length (runningTasks s)" by linarith
  then show ?thesis by (simp only: length_map)
qed

lemma step_maxConcurrent: "step s s' \<Longrightarrow> maxConcurrent s' = maxConcurrent s"
  by (induction rule: step.induct) (auto simp: completion_char(2) startTask_def)

lemma step_running_bound:
  assumes "step s s'" and "int (length (runningTasks s)) \<le> maxConcurrent s"
  shows "int (length (runningTasks s')) \<le> maxConcurrent s'"
  using assms
proof (induction rule: step.induct)
  case (completion s s1)
  note c = completion_char[OF completion(1)]
  have "length (runningTasks s1) \<le> length (runningTasks s)" by (simp add: c(5))
  with completion(2) show ?case by (simp add: c(2))
next
  case (admission s t rest)
  have "length (set_add (id_t t) (runningTasks s)) \<le> length (runningTasks s) + 1"
    by (simp add: set_add_def)
  with admission(1) show ?case by (simp add: startTask_def)
next
  case (advance s)
  then show ?case by simp
qed

lemma reachable_running_bound:
  assumes "reachable ts mc s" and "0 \<le> mc"
  shows "maxConcurrent s = mc \<and> int (length (runningTasks s)) \<le> maxConcurrent s"
  using assms
proof (induction rule: reachable.induct)
  case initial
  then show ?case by (simp add: initializeWorkflow_def)
next
  case (after s s')
  then show ?case using step_maxConcurrent step_running_bound by metis
qed

section \<open>Progress: a potential that every continuing tick decreases\<close>

text \<open>
  The remaining work of a task is its duration while it is pending, the time left until
  its completion while it runs, and nothing once it is completed. The potential of a
  state is the sum over its entries.
\<close>

definition remaining :: "int \<Rightarrow> TaskState \<Rightarrow> int" where
  "remaining now v =
     (case status v of
        Pending \<Rightarrow> time v
      | Running \<Rightarrow> max 0 (num_or_zero (startTime v) + time v - now)
      | Completed \<Rightarrow> 0)"

definition potential :: "WorkflowState \<Rightarrow> int" where
  "potential s = sum_list (map (\<lambda>p. remaining (currentTime s) (snd p)) (tasks s))"

definition dep_rel :: "WorkflowState \<Rightarrow> (string \<times> string) set" where
  "dep_rel s = {(d, k). \<exists>v. map_of (tasks s) k = Some v \<and> d \<in> set (deps v)}"

definition graph_ok :: "WorkflowState \<Rightarrow> bool" where
  "graph_ok s \<longleftrightarrow>
     acyclic (dep_rel s) \<and>
     (\<forall>k v. map_of (tasks s) k = Some v \<longrightarrow> 1 \<le> time v \<and> set (deps v) \<subseteq> fst ` set (tasks s)) \<and>
     1 \<le> maxConcurrent s"

definition fresh :: "WorkflowState \<Rightarrow> bool" where
  "fresh s \<longleftrightarrow>
     (\<forall>k v. map_of (tasks s) k = Some v \<and> status v = Running \<longrightarrow> \<not> done_at (currentTime s) v)"

definition same_graph :: "WorkflowState \<Rightarrow> WorkflowState \<Rightarrow> bool" where
  "same_graph s s' \<longleftrightarrow>
     map fst (tasks s') = map fst (tasks s) \<and> maxConcurrent s' = maxConcurrent s \<and>
     (\<forall>k v'. map_of (tasks s') k = Some v' \<longrightarrow>
        (\<exists>v. map_of (tasks s) k = Some v \<and> time v' = time v \<and> deps v' = deps v))"

lemma same_graph_back:
  assumes sg: "same_graph s s'" and m: "map_of (tasks s) k = Some v"
  shows "\<exists>v'. map_of (tasks s') k = Some v' \<and> time v' = time v \<and> deps v' = deps v"
proof -
  from m have "k \<in> fst ` set (tasks s)" by (metis domI dom_map_of_conv_image_fst)
  then have "k \<in> set (map fst (tasks s'))" using sg by (simp add: same_graph_def)
  then have "k \<in> dom (map_of (tasks s'))" by (simp add: dom_map_of_conv_image_fst)
  then obtain v' where v': "map_of (tasks s') k = Some v'" by blast
  with sg obtain v0 where "map_of (tasks s) k = Some v0" "time v' = time v0" "deps v' = deps v0"
    unfolding same_graph_def by blast
  with m v' show ?thesis by simp
qed

lemma same_graph_dep_rel:
  assumes "same_graph s s'"
  shows "dep_rel s' = dep_rel s"
proof (intro set_eqI iffI)
  fix p assume "p \<in> dep_rel s'"
  then obtain d k v' where p: "p = (d, k)" and "map_of (tasks s') k = Some v'" "d \<in> set (deps v')"
    by (auto simp: dep_rel_def)
  with assms obtain v where "map_of (tasks s) k = Some v" "deps v' = deps v"
    unfolding same_graph_def by blast
  with \<open>d \<in> set (deps v')\<close> show "p \<in> dep_rel s" by (auto simp: dep_rel_def p)
next
  fix p assume "p \<in> dep_rel s"
  then obtain d k v where p: "p = (d, k)" and m: "map_of (tasks s) k = Some v" and d: "d \<in> set (deps v)"
    by (auto simp: dep_rel_def)
  from same_graph_back[OF assms m] d show "p \<in> dep_rel s'" by (auto simp: dep_rel_def p)
qed

lemma graph_ok_same_graph:
  assumes ok: "graph_ok s" and sg: "same_graph s s'"
  shows "graph_ok s'"
proof -
  have a: "acyclic (dep_rel s')" using ok by (simp add: same_graph_dep_rel[OF sg] graph_ok_def)
  have keys: "fst ` set (tasks s') = fst ` set (tasks s)"
    using sg by (metis same_graph_def set_map)
  have b: "\<forall>k v. map_of (tasks s') k = Some v \<longrightarrow> 1 \<le> time v \<and> set (deps v) \<subseteq> fst ` set (tasks s')"
  proof (intro allI impI)
    fix k v' assume "map_of (tasks s') k = Some v'"
    with sg obtain v where "map_of (tasks s) k = Some v" "time v' = time v" "deps v' = deps v"
      unfolding same_graph_def by blast
    with ok show "1 \<le> time v' \<and> set (deps v') \<subseteq> fst ` set (tasks s')"
      unfolding graph_ok_def keys by metis
  qed
  have c: "1 \<le> maxConcurrent s'" using ok sg by (simp add: graph_ok_def same_graph_def)
  from a b c show ?thesis unfolding graph_ok_def by blast
qed

lemma same_graph_completion:
  assumes u: "updateRunningTasks s = Inr s1"
  shows "same_graph s s1"
  unfolding same_graph_def
proof (intro conjI allI impI)
  note c = completion_char[OF u]
  show "map fst (tasks s1) = map fst (tasks s)" by (rule c(3))
  show "maxConcurrent s1 = maxConcurrent s" by (rule c(2))
  fix k v' assume "map_of (tasks s1) k = Some v'"
  then obtain v where "map_of (tasks s) k = Some v"
    and "v' = (if k \<in> set (runningTasks s) then finish (currentTime s) v else v)"
    by (auto simp: c(4) split: if_splits)
  then show "\<exists>v. map_of (tasks s) k = Some v \<and> time v' = time v \<and> deps v' = deps v"
    by (auto simp: finish_def)
qed

lemma same_graph_admission:
  assumes wf: "wf_state s" and av: "getAvailableTasks s = t # rest"
  shows "same_graph s (startTask s t)"
  unfolding same_graph_def
proof (intro conjI allI impI)
  note a = admission_char[OF wf av]
  show "map fst (tasks (startTask s t)) = map fst (tasks s)" by (rule a(6))
  show "maxConcurrent (startTask s t) = maxConcurrent s" by (rule a(9))
  fix k v' assume m: "map_of (tasks (startTask s t)) k = Some v'"
  show "\<exists>v. map_of (tasks s) k = Some v \<and> time v' = time v \<and> deps v' = deps v"
  proof (cases "k = id_t t")
    case True
    with m have "v' = t\<lparr>status := Running, startTime := Some (currentTime s)\<rparr>" by (simp add: a(7))
    with True a(1) show ?thesis by simp
  next
    case False
    with m show ?thesis by (simp add: a(7))
  qed
qed

lemma map_of_entry:
  assumes "distinct (map fst m)" and "p \<in> set m"
  shows "map_of m (fst p) = Some (snd p)"
  using assms by (cases p) simp

lemma sum_by_keys:
  assumes "distinct (map fst m)"
  shows "sum_list (map (\<lambda>p. f (snd p)) m) = sum_list (map (\<lambda>k. f (the (map_of m k))) (map fst m))"
proof -
  have "map (\<lambda>p. f (snd p)) m = map (\<lambda>p. f (the (map_of m (fst p)))) m"
  proof (rule map_cong[OF refl])
    fix p assume "p \<in> set m"
    with assms have "map_of m (fst p) = Some (snd p)" by (rule map_of_entry)
    then show "f (snd p) = f (the (map_of m (fst p)))" by simp
  qed
  also have "\<dots> = map (\<lambda>k. f (the (map_of m k))) (map fst m)"
    by (simp add: comp_def)
  finally show ?thesis by (rule arg_cong)
qed

lemma potential_keys:
  assumes "wf_state s"
  shows "potential s =
    sum_list (map (\<lambda>k. remaining (currentTime s) (the (map_of (tasks s) k))) (map fst (tasks s)))"
  unfolding potential_def using wf_distinct_keys[OF assms] by (rule sum_by_keys)

lemma remaining_nonneg: "0 \<le> time v \<Longrightarrow> 0 \<le> remaining now v"
  by (cases "status v") (simp_all add: remaining_def)

lemma graph_ok_time:
  assumes "graph_ok s" and "wf_state s" and "p \<in> set (tasks s)"
  shows "1 \<le> time (snd p)"
proof -
  from assms(2,3) have "map_of (tasks s) (fst p) = Some (snd p)"
    using wf_distinct_keys map_of_entry by blast
  with assms(1) show ?thesis unfolding graph_ok_def by blast
qed

lemma potential_nonneg:
  assumes "graph_ok s" and "wf_state s"
  shows "0 \<le> potential s"
  unfolding potential_def
proof (rule sum_list_nonneg)
  fix x assume "x \<in> set (map (\<lambda>p. remaining (currentTime s) (snd p)) (tasks s))"
  then obtain p where p: "p \<in> set (tasks s)" and x: "x = remaining (currentTime s) (snd p)" by auto
  from assms p have "1 \<le> time (snd p)" by (rule graph_ok_time)
  then have "0 \<le> time (snd p)" by simp
  then show "0 \<le> x" unfolding x by (rule remaining_nonneg)
qed

lemma potential_cong:
  assumes wf: "wf_state s" and wf': "wf_state s'"
    and keys: "map fst (tasks s') = map fst (tasks s)"
    and pt: "\<And>k. k \<in> fst ` set (tasks s) \<Longrightarrow>
       remaining (currentTime s') (the (map_of (tasks s') k)) = remaining (currentTime s) (the (map_of (tasks s) k))"
  shows "potential s' = potential s"
proof -
  have "map (\<lambda>k. remaining (currentTime s') (the (map_of (tasks s') k))) (map fst (tasks s))
      = map (\<lambda>k. remaining (currentTime s) (the (map_of (tasks s) k))) (map fst (tasks s))"
    by (rule map_cong[OF refl]) (simp add: pt)
  then show ?thesis by (simp only: potential_keys[OF wf] potential_keys[OF wf'] keys)
qed

lemma potential_completion:
  assumes wf: "wf_state s" and u: "updateRunningTasks s = Inr s1"
  shows "potential s1 = potential s"
proof (rule potential_cong)
  note c = completion_char[OF u]
  show "wf_state s" by (rule wf)
  show "wf_state s1" using wf u by (rule wf_state_completion)
  show "map fst (tasks s1) = map fst (tasks s)" by (rule c(3))
  fix k assume "k \<in> fst ` set (tasks s)"
  then obtain v where m: "map_of (tasks s) k = Some v"
    by (metis domD dom_map_of_conv_image_fst)
  show "remaining (currentTime s1) (the (map_of (tasks s1) k)) = remaining (currentTime s) (the (map_of (tasks s) k))"
  proof (cases "k \<in> set (runningTasks s)")
    case False
    with m show ?thesis by (simp add: c(1) c(4))
  next
    case True
    with m have r: "status v = Running" using wf_running_iff[OF wf, of k] by auto
    have "remaining (currentTime s) (finish (currentTime s) v) = remaining (currentTime s) v"
      using r by (simp add: remaining_def finish_def done_at_def)
    with True m show ?thesis by (simp add: c(1) c(4))
  qed
qed

lemma fresh_completion:
  assumes wf: "wf_state s" and u: "updateRunningTasks s = Inr s1"
  shows "fresh s1"
  unfolding fresh_def
proof (intro allI impI)
  note c = completion_char[OF u]
  fix k v1 assume h: "map_of (tasks s1) k = Some v1 \<and> status v1 = Running"
  then obtain v where m: "map_of (tasks s) k = Some v"
    and v1: "v1 = (if k \<in> set (runningTasks s) then finish (currentTime s) v else v)"
    by (auto simp: c(4) split: if_splits)
  have "status v = Running" using h v1 by (auto simp: finish_def split: if_splits)
  with m have "k \<in> set (runningTasks s)" using wf_running_iff[OF wf, of k] by blast
  with v1 have "v1 = finish (currentTime s) v" by simp
  with h show "\<not> done_at (currentTime s1) v1" by (auto simp: finish_def c(1) split: if_splits)
qed

lemma potential_admission:
  assumes wf: "wf_state s" and ok: "graph_ok s" and av: "getAvailableTasks s = t # rest"
  shows "potential (startTask s t) = potential s"
proof (rule potential_cong)
  note a = admission_char[OF wf av]
  show "wf_state s" by (rule wf)
  show "wf_state (startTask s t)" using wf av by (rule wf_state_admission)
  show "map fst (tasks (startTask s t)) = map fst (tasks s)" by (rule a(6))
  fix k assume "k \<in> fst ` set (tasks s)"
  show "remaining (currentTime (startTask s t)) (the (map_of (tasks (startTask s t)) k))
      = remaining (currentTime s) (the (map_of (tasks s) k))"
  proof (cases "k = id_t t")
    case False
    then show ?thesis by (simp add: a(7) a(8))
  next
    case True
    from ok a(1) have "1 \<le> time t" unfolding graph_ok_def by blast
    then show ?thesis using True a(1) a(2)
      by (simp add: a(7) a(8) remaining_def num_or_zero_def)
  qed
qed

lemma fresh_admission:
  assumes wf: "wf_state s" and ok: "graph_ok s" and fr: "fresh s" and av: "getAvailableTasks s = t # rest"
  shows "fresh (startTask s t)"
  unfolding fresh_def
proof (intro allI impI)
  note a = admission_char[OF wf av]
  fix k v1 assume h: "map_of (tasks (startTask s t)) k = Some v1 \<and> status v1 = Running"
  show "\<not> done_at (currentTime (startTask s t)) v1"
  proof (cases "k = id_t t")
    case False
    with h have "map_of (tasks s) k = Some v1 \<and> status v1 = Running" by (simp add: a(7))
    with fr show ?thesis unfolding fresh_def a(8) by blast
  next
    case True
    from ok a(1) have "1 \<le> time t" unfolding graph_ok_def by blast
    moreover from True h have "v1 = t\<lparr>status := Running, startTime := Some (currentTime s)\<rparr>"
      by (simp add: a(7))
    ultimately show ?thesis by (simp add: done_at_def num_or_zero_def a(8))
  qed
qed

lemma startNewTasks_invariant:
  assumes "P s"
    and "\<And>s t rest. P s \<Longrightarrow> int (length (runningTasks s)) < maxConcurrent s \<Longrightarrow>
           getAvailableTasks s = t # rest \<Longrightarrow> P (startTask s t)"
  shows "P (startNewTasks s)"
  using assms(1)
proof (induction s rule: startNewTasks.induct)
  case (1 s)
  show ?case
  proof (cases "int (length (runningTasks s)) < maxConcurrent s")
    case False
    with "1.prems" show ?thesis by (subst startNewTasks.simps) simp
  next
    case True
    show ?thesis
    proof (cases "getAvailableTasks s")
      case Nil
      with True "1.prems" show ?thesis by (subst startNewTasks.simps) simp
    next
      case (Cons t rest)
      have "P (startTask s t)" using "1.prems" True Cons by (rule assms(2))
      with True Cons have "P (startNewTasks (startTask s t))" by (rule "1.IH")
      moreover have "startNewTasks s = startNewTasks (startTask s t)"
        using True Cons by (subst startNewTasks.simps) simp
      ultimately show ?thesis by simp
    qed
  qed
qed

lemma startNewTasks_exit:
  "\<not> int (length (runningTasks (startNewTasks s))) < maxConcurrent (startNewTasks s)
   \<or> getAvailableTasks (startNewTasks s) = []"
proof (induction s rule: startNewTasks.induct)
  case (1 s)
  show ?case
  proof (cases "int (length (runningTasks s)) < maxConcurrent s")
    case False
    then have "startNewTasks s = s" by (subst startNewTasks.simps) simp
    with False show ?thesis by simp
  next
    case True
    show ?thesis
    proof (cases "getAvailableTasks s")
      case Nil
      with True have "startNewTasks s = s" by (subst startNewTasks.simps) simp
      with Nil show ?thesis by simp
    next
      case (Cons t rest)
      have "startNewTasks s = startNewTasks (startTask s t)"
        using True Cons by (subst startNewTasks.simps) simp
      with "1.IH"[OF True Cons] show ?thesis by simp
    qed
  qed
qed

definition tick_inv :: "int \<Rightarrow> int \<Rightarrow> WorkflowState \<Rightarrow> bool" where
  "tick_inv now p s \<longleftrightarrow>
     wf_state s \<and> graph_ok s \<and> fresh s \<and> currentTime s = now \<and> potential s = p"

lemma tick_inv_admission:
  assumes "tick_inv now p s" and "getAvailableTasks s = t # rest"
  shows "tick_inv now p (startTask s t)"
proof -
  from assms(1) have wf: "wf_state s" and ok: "graph_ok s" and fr: "fresh s"
    and now: "currentTime s = now" and p: "potential s = p"
    by (simp_all add: tick_inv_def)
  note av = assms(2)
  have "wf_state (startTask s t)" using wf av by (rule wf_state_admission)
  moreover have "graph_ok (startTask s t)"
    using ok same_graph_admission[OF wf av] by (rule graph_ok_same_graph)
  moreover have "fresh (startTask s t)" using wf ok fr av by (rule fresh_admission)
  moreover have "currentTime (startTask s t) = now" using now by (simp add: startTask_def)
  moreover have "potential (startTask s t) = p" using potential_admission[OF wf ok av] p by simp
  ultimately show ?thesis by (simp add: tick_inv_def)
qed

lemma tick_inv_startNewTasks:
  assumes "tick_inv now p s"
  shows "tick_inv now p (startNewTasks s)"
  using assms by (rule startNewTasks_invariant) (rule tick_inv_admission)

lemma sum_list_strict:
  fixes f g :: "'a \<Rightarrow> int"
  assumes "\<And>x. x \<in> set xs \<Longrightarrow> f x \<le> g x" and "x \<in> set xs" and "f x + 1 \<le> g x"
  shows "sum_list (map f xs) + 1 \<le> sum_list (map g xs)"
  using assms
proof (induction xs)
  case Nil
  then show ?case by simp
next
  case (Cons y ys)
  have le: "sum_list (map f ys) \<le> sum_list (map g ys)"
    by (rule sum_list_mono) (simp add: Cons.prems(1))
  show ?case
  proof (cases "x = y")
    case True
    with Cons.prems(3) le show ?thesis by simp
  next
    case False
    with Cons.prems(2) have "x \<in> set ys" by simp
    then have "sum_list (map f ys) + 1 \<le> sum_list (map g ys)"
      using Cons.prems(1,3) by (intro Cons.IH) simp_all
    moreover have "f y \<le> g y" by (simp add: Cons.prems(1))
    ultimately show ?thesis by simp
  qed
qed

lemma potential_advance:
  assumes wf: "wf_state s" and fr: "fresh s" and run: "runningTasks s \<noteq> []"
  shows "potential (s\<lparr>currentTime := currentTime s + 1\<rparr>) + 1 \<le> potential s"
proof -
  let ?f = "\<lambda>p. remaining (currentTime s + 1) (snd p)"
  let ?g = "\<lambda>p. remaining (currentTime s) (snd p)"
  from run obtain k where k: "k \<in> set (runningTasks s)" by (cases "runningTasks s") auto
  then obtain v where m: "map_of (tasks s) k = Some v" and r: "status v = Running"
    using wf_running_iff[OF wf, of k] by blast
  from m have kin: "(k, v) \<in> set (tasks s)" by (rule map_of_SomeD)
  have le: "?f p \<le> ?g p" for p
    by (cases "status (snd p)") (simp_all add: remaining_def)
  from fr m r have "\<not> done_at (currentTime s) v" unfolding fresh_def by blast
  then have "?f (k, v) + 1 \<le> ?g (k, v)" using r by (simp add: remaining_def done_at_def)
  with le kin have "sum_list (map ?f (tasks s)) + 1 \<le> sum_list (map ?g (tasks s))"
    by (intro sum_list_strict[where x = "(k, v)"]) simp_all
  then show ?thesis by (simp add: potential_def)
qed

lemma finite_dep_rel: "finite (dep_rel s)"
proof -
  have "dep_rel s \<subseteq> (\<Union>p \<in> set (tasks s). set (deps (snd p))) \<times> fst ` set (tasks s)"
  proof
    fix x assume "x \<in> dep_rel s"
    then obtain d k v where x: "x = (d, k)" and m: "map_of (tasks s) k = Some v" and d: "d \<in> set (deps v)"
      by (auto simp: dep_rel_def)
    from m have "(k, v) \<in> set (tasks s)" by (rule map_of_SomeD)
    with d show "x \<in> (\<Union>p \<in> set (tasks s). set (deps (snd p))) \<times> fst ` set (tasks s)"
      unfolding x by force
  qed
  moreover have "finite ((\<Union>p \<in> set (tasks s). set (deps (snd p))) \<times> fst ` set (tasks s))"
    by simp
  ultimately show ?thesis by (rule finite_subset)
qed

lemma no_deadlock:
  assumes wf: "wf_state s" and ok: "graph_ok s"
    and norun: "runningTasks s = []" and noav: "getAvailableTasks s = []"
  shows "\<not> hasUnfinishedTasks s"
proof
  assume "hasUnfinishedTasks s"
  then obtain p where p: "p \<in> set (tasks s)" and np: "status (snd p) \<noteq> Completed"
    by (auto simp: hasUnfinishedTasks_def list_ex_iff)
  define Q where "Q = {k. \<exists>v. map_of (tasks s) k = Some v \<and> status v \<noteq> Completed}"
  have "map_of (tasks s) (fst p) = Some (snd p)"
    using wf_distinct_keys[OF wf] p by (rule map_of_entry)
  with np have pQ: "fst p \<in> Q" by (auto simp: Q_def)
  have "wf (dep_rel s)"
    using finite_dep_rel ok by (auto simp: graph_ok_def intro: finite_acyclic_wf)
  from this pQ obtain z where zQ: "z \<in> Q" and zmin: "\<And>y. (y, z) \<in> dep_rel s \<Longrightarrow> y \<notin> Q"
    by (rule wfE_min) blast
  from zQ obtain v where m: "map_of (tasks s) z = Some v" and nc: "status v \<noteq> Completed"
    by (auto simp: Q_def)
  have "status v \<noteq> Running"
  proof
    assume "status v = Running"
    with m have "z \<in> set (runningTasks s)" using wf_running_iff[OF wf, of z] by blast
    with norun show False by simp
  qed
  with nc have pend: "status v = Pending" by (cases "status v") simp_all
  have depsdone: "\<forall>d \<in> set (deps v). \<exists>vd. map_of (tasks s) d = Some vd \<and> status vd = Completed"
  proof
    fix d assume d: "d \<in> set (deps v)"
    with m have "(d, z) \<in> dep_rel s" by (auto simp: dep_rel_def)
    then have nq: "d \<notin> Q" by (rule zmin)
    from ok m d have "d \<in> fst ` set (tasks s)" unfolding graph_ok_def by blast
    then obtain vd where vd: "map_of (tasks s) d = Some vd"
      by (metis domD dom_map_of_conv_image_fst)
    with nq have "status vd = Completed" by (auto simp: Q_def)
    with vd show "\<exists>vd. map_of (tasks s) d = Some vd \<and> status vd = Completed" by blast
  qed
  from m pend depsdone have cs: "canStartTask z s" by (auto simp: canStartTask_iff)
  from m have "(z, v) \<in> set (tasks s)" by (rule map_of_SomeD)
  then have vin: "v \<in> set (map snd (tasks s))" by force
  from wf m have "id_t v = z" by (rule wf_id)
  with cs vin have "v \<in> set (getAvailableTasks s)" by (simp add: getAvailableTasks_def)
  with noav show False by simp
qed

text \<open>One tick on a well-formed state over an acyclic, resolvable graph.\<close>

definition run_inv :: "WorkflowState \<Rightarrow> bool" where
  "run_inv s \<longleftrightarrow> wf_state s \<and> graph_ok s"

lemma tick_progress:
  assumes inv: "run_inv s"
  shows "\<exists>s' c. next_tick s = Inr (s', c) \<and> run_inv s' \<and>
           (if c then currentTime s' = currentTime s + 1 \<and> potential s' + 1 \<le> potential s
            else currentTime s' = currentTime s \<and> \<not> hasUnfinishedTasks s')"
proof -
  from inv have wf: "wf_state s" and ok: "graph_ok s" by (simp_all add: run_inv_def)
  from updateRunningTasks_char[OF wf_running_keys[OF wf]]
  obtain s1 where u: "updateRunningTasks s = Inr s1" by blast
  note c = completion_char[OF u]
  have "tick_inv (currentTime s) (potential s) s1"
    unfolding tick_inv_def
    using wf_state_completion[OF wf u] graph_ok_same_graph[OF ok same_graph_completion[OF u]]
      fresh_completion[OF wf u] c(1) potential_completion[OF wf u]
    by simp
  then have "tick_inv (currentTime s) (potential s) (startNewTasks s1)"
    by (rule tick_inv_startNewTasks)
  then have wf2: "wf_state (startNewTasks s1)" and ok2: "graph_ok (startNewTasks s1)"
    and fr2: "fresh (startNewTasks s1)" and now2: "currentTime (startNewTasks s1) = currentTime s"
    and p2: "potential (startNewTasks s1) = potential s"
    by (simp_all add: tick_inv_def)
  let ?s2 = "startNewTasks s1"
  show ?thesis
  proof (cases "runningTasks ?s2 = []")
    case False
    let ?s' = "?s2\<lparr>currentTime := currentTime ?s2 + 1\<rparr>"
    have nt: "next_tick s = Inr (?s', True)" using u False by (simp add: next_tick_def Let_def)
    have "wf_state ?s'" using wf2 by (rule wf_state_advance)
    moreover have "graph_ok ?s'"
      using ok2 by (rule graph_ok_same_graph) (simp add: same_graph_def)
    moreover have "potential ?s' + 1 \<le> potential s"
      using potential_advance[OF wf2 fr2 False] p2 by simp
    moreover have "currentTime ?s' = currentTime s + 1" using now2 by simp
    ultimately have "next_tick s = Inr (?s', True) \<and> run_inv ?s' \<and>
           (if True then currentTime ?s' = currentTime s + 1 \<and> potential ?s' + 1 \<le> potential s
            else currentTime ?s' = currentTime s \<and> \<not> hasUnfinishedTasks ?s')"
      using nt by (simp add: run_inv_def)
    then show ?thesis by (intro exI[of _ ?s'] exI[of _ True])
  next
    case True
    have nt: "next_tick s = Inr (?s2, hasUnfinishedTasks ?s2)"
      using u True by (simp add: next_tick_def Let_def)
    from ok2 have "1 \<le> maxConcurrent ?s2" by (simp add: graph_ok_def)
    with True have "int (length (runningTasks ?s2)) < maxConcurrent ?s2" by simp
    with startNewTasks_exit[of s1] have "getAvailableTasks ?s2 = []" by blast
    with wf2 ok2 True have "\<not> hasUnfinishedTasks ?s2" by (rule no_deadlock)
    then have "next_tick s = Inr (?s2, False) \<and> run_inv ?s2 \<and>
           (if False then currentTime ?s2 = currentTime s + 1 \<and> potential ?s2 + 1 \<le> potential s
            else currentTime ?s2 = currentTime s \<and> \<not> hasUnfinishedTasks ?s2)"
      using nt wf2 ok2 now2 by (simp add: run_inv_def)
    then show ?thesis by (intro exI[of _ ?s2] exI[of _ False])
  qed
qed

lemma run_terminates:
  assumes "run_inv s" and "potential s \<le> int n"
  shows "\<exists>k s'. k \<le> n \<and> run_fuel k s = None \<and> run_fuel (Suc k) s = Some (Inr s') \<and>
           currentTime s' = currentTime s + int k \<and> \<not> hasUnfinishedTasks s'"
  using assms
proof (induction n arbitrary: s)
  case 0
  from tick_progress[OF "0.prems"(1)] obtain s' c where nt: "next_tick s = Inr (s', c)"
    and inv': "run_inv s'"
    and eff: "if c then currentTime s' = currentTime s + 1 \<and> potential s' + 1 \<le> potential s
            else currentTime s' = currentTime s \<and> \<not> hasUnfinishedTasks s'"
    by blast
  have "\<not> c"
  proof
    assume c
    with eff have "potential s' + 1 \<le> potential s" by simp
    moreover have "0 \<le> potential s'" using inv' by (simp add: run_inv_def potential_nonneg)
    ultimately show False using "0.prems"(2) by simp
  qed
  with eff nt have "run_fuel 0 s = None \<and> run_fuel (Suc 0) s = Some (Inr s') \<and>
      currentTime s' = currentTime s + int 0 \<and> \<not> hasUnfinishedTasks s'" by simp
  then show ?case by blast
next
  case (Suc n)
  from tick_progress[OF Suc.prems(1)] obtain s' c where nt: "next_tick s = Inr (s', c)"
    and inv': "run_inv s'"
    and eff: "if c then currentTime s' = currentTime s + 1 \<and> potential s' + 1 \<le> potential s
            else currentTime s' = currentTime s \<and> \<not> hasUnfinishedTasks s'"
    by blast
  show ?case
  proof (cases c)
    case False
    with eff nt have "run_fuel 0 s = None \<and> run_fuel (Suc 0) s = Some (Inr s') \<and>
      currentTime s' = currentTime s + int 0 \<and> \<not> hasUnfinishedTasks s'" by simp
    then show ?thesis by blast
  next
    case True
    with eff have t': "currentTime s' = currentTime s + 1" and "potential s' + 1 \<le> potential s"
      by simp_all
    with Suc.prems(2) have "potential s' \<le> int n" by simp
    from Suc.IH[OF inv' this] obtain k s'' where k: "k \<le> n" "run_fuel k s' = None"
      "run_fuel (Suc k) s' = Some (Inr s'')" "currentTime s'' = currentTime s' + int k"
      "\<not> hasUnfinishedTasks s''" by blast
    have "Suc k \<le> Suc n" using k(1) by simp
    moreover have "run_fuel (Suc k) s = None" using nt True k(2) by simp
    moreover have "run_fuel (Suc (Suc k)) s = Some (Inr s'')" using nt True k(3) by simp
    moreover have "currentTime s'' = currentTime s + int (Suc k)" using k(4) t' by simp
    ultimately show ?thesis using k(5) by blast
  qed
qed

section \<open>Input graphs\<close>

text \<open>
  The dependency graph of an input list has an edge from each dependency identifier to
  the task that names it. The list is resolvable when each dependency identifier is the
  identifier of a declared task.
\<close>

definition task_graph :: "Task list \<Rightarrow> (string \<times> string) set" where
  "task_graph ts = set (concat (map (\<lambda>t. map (\<lambda>d. (d, id_t t)) (deps t)) ts))"

definition resolvable :: "Task list \<Rightarrow> bool" where
  "resolvable ts \<longleftrightarrow> list_all (\<lambda>t. list_all (\<lambda>d. d \<in> set (map id_t ts)) (deps t)) ts"

definition positive_durations :: "Task list \<Rightarrow> bool" where
  "positive_durations ts \<longleftrightarrow> list_all (\<lambda>t. 1 \<le> time t) ts"

definition total_duration :: "Task list \<Rightarrow> int" where
  "total_duration ts = sum_list (map time ts)"

lemma sum_update_le:
  fixes f :: "string \<times> 'v \<Rightarrow> int"
  assumes "\<And>e. e \<in> set m \<Longrightarrow> 0 \<le> f e"
  shows "sum_list (map f (AList.update k v m)) \<le> sum_list (map f m) + f (k, v)"
  using assms
proof (induction m)
  case Nil
  then show ?case by simp
next
  case (Cons p m)
  have "sum_list (map f (AList.update k v m)) \<le> sum_list (map f m) + f (k, v)"
    by (rule Cons.IH) (simp add: Cons.prems)
  moreover have "0 \<le> f p" by (simp add: Cons.prems)
  ultimately show ?case by (cases p) auto
qed

lemma set_new_Map: "set (new_Map es) \<subseteq> set es"
proof
  fix p assume "p \<in> set (new_Map es)"
  with distinct_new_Map have "map_of (new_Map es) (fst p) = Some (snd p)" by (rule map_of_entry)
  then have "(fst p, snd p) \<in> set es" by (rule new_Map_entry)
  then show "p \<in> set es" by simp
qed

lemma sum_new_Map_le:
  fixes f :: "string \<times> 'v \<Rightarrow> int"
  assumes "\<And>e. e \<in> set es \<Longrightarrow> 0 \<le> f e"
  shows "sum_list (map f (new_Map es)) \<le> sum_list (map f es)"
  using assms
proof (induction es rule: rev_induct)
  case Nil
  then show ?case by simp
next
  case (snoc e es)
  obtain k v where e: "e = (k, v)" by (cases e)
  have nonneg: "0 \<le> f x" if "x \<in> set (new_Map es)" for x
  proof -
    from that set_new_Map[of es] have "x \<in> set (es @ [e])" by auto
    then show ?thesis by (rule snoc.prems)
  qed
  have "sum_list (map f (AList.update k v (new_Map es))) \<le> sum_list (map f (new_Map es)) + f (k, v)"
    using nonneg by (rule sum_update_le)
  moreover have "sum_list (map f (new_Map es)) \<le> sum_list (map f es)"
    by (rule snoc.IH) (simp add: snoc.prems)
  ultimately show ?case by (simp add: e new_Map_snoc)
qed

lemma init_potential:
  assumes "positive_durations ts"
  shows "potential (initializeWorkflow ts mc) \<le> total_duration ts"
proof -
  let ?es = "map (\<lambda>task. (id_t task, createTaskState task)) ts"
  let ?f = "\<lambda>p :: string \<times> TaskState. remaining 0 (snd p)"
  have f: "remaining 0 (createTaskState t) = time t" for t
    by (simp add: remaining_def createTaskState_def)
  have "sum_list (map ?f (new_Map ?es)) \<le> sum_list (map ?f ?es)"
  proof (rule sum_new_Map_le)
    fix e assume "e \<in> set ?es"
    then obtain t where "t \<in> set ts" "e = (id_t t, createTaskState t)" by auto
    moreover from this assms have "1 \<le> time t" by (simp add: positive_durations_def list_all_iff)
    ultimately show "0 \<le> ?f e" by (simp add: f)
  qed
  moreover have "map ?f ?es = map time ts" by (simp add: f comp_def)
  ultimately have "sum_list (map ?f (new_Map ?es)) \<le> sum_list (map time ts)" by (simp only:)
  then show ?thesis
    by (simp add: potential_def initializeWorkflow_def total_duration_def)
qed

lemma init_key_set: "fst ` set (tasks (initializeWorkflow ts mc)) = id_t ` set ts"
proof -
  have "set (map fst (tasks (initializeWorkflow ts mc))) = set (map id_t ts)"
    by (simp only: init_keys set_rev set_remdups)
  then show ?thesis by simp
qed

lemma init_graph_ok:
  assumes ac: "acyclic (task_graph ts)" and res: "resolvable ts"
    and pos: "positive_durations ts" and mc: "1 \<le> mc"
  shows "graph_ok (initializeWorkflow ts mc)"
proof -
  let ?s = "initializeWorkflow ts mc"
  have "dep_rel ?s \<subseteq> task_graph ts"
  proof
    fix x assume "x \<in> dep_rel ?s"
    then obtain d k v where x: "x = (d, k)" and m: "map_of (tasks ?s) k = Some v"
      and d: "d \<in> set (deps v)" by (auto simp: dep_rel_def)
    from init_entry[OF m] obtain t where t: "t \<in> set ts" "id_t t = k" "v = createTaskState t"
      by blast
    with d have "d \<in> set (deps t)" by (simp add: createTaskState_def)
    with t show "x \<in> task_graph ts" unfolding x task_graph_def by auto
  qed
  with ac have a: "acyclic (dep_rel ?s)" by (rule acyclic_subset)
  have b: "\<forall>k v. map_of (tasks ?s) k = Some v \<longrightarrow> 1 \<le> time v \<and> set (deps v) \<subseteq> fst ` set (tasks ?s)"
  proof (intro allI impI)
    fix k v assume m: "map_of (tasks ?s) k = Some v"
    from init_entry[OF m] obtain t where t: "t \<in> set ts" "id_t t = k" "v = createTaskState t"
      by blast
    have "1 \<le> time t" using pos t(1) by (simp add: positive_durations_def list_all_iff)
    moreover have "set (deps t) \<subseteq> id_t ` set ts"
      using res t(1) by (auto simp: resolvable_def list_all_iff)
    ultimately show "1 \<le> time v \<and> set (deps v) \<subseteq> fst ` set (tasks ?s)"
      unfolding init_key_set t(3) by (simp add: createTaskState_def)
  qed
  have c: "1 \<le> maxConcurrent ?s" using mc by (simp add: initializeWorkflow_def)
  from a b c show ?thesis unfolding graph_ok_def by blast
qed

definition task_single :: "Task list" where
  "task_single = [\<lparr>id_t = ''A'', time = 3, deps = []\<rparr>]"

definition task_zero :: "Task list" where
  "task_zero = [\<lparr>id_t = ''A'', time = 0, deps = []\<rparr>]"

lemma acyclic_tasks_2: "acyclic (task_graph tasks_2)"
proof -
  define f :: "string \<Rightarrow> nat" where
    "f = (\<lambda>k. if k = ''A'' then 5 else if k = ''B'' then 4 else if k = ''C'' then 4
               else if k = ''D'' then 3 else 2)"
  show ?thesis
  proof (rule acyclicI_order[where f = f])
    fix a b assume "(a, b) \<in> task_graph tasks_2"
    then show "f b < f a" by (auto simp: task_graph_def tasks_2_def f_def)
  qed
qed

section \<open>Status changes of a single pass\<close>

lemma step_status_mono:
  assumes "step s s'" and "map_of (tasks s) k = Some v"
  shows "\<exists>v'. map_of (tasks s') k = Some v' \<and>
           (status v = Completed \<longrightarrow> status v' = Completed) \<and>
           (status v = Running \<longrightarrow> status v' \<noteq> Pending)"
  using assms
proof (induction rule: step.induct)
  case (completion s s1)
  note c = completion_char[OF completion(1)]
  show ?case using completion(2) by (simp add: c(4) finish_def)
next
  case (admission s t rest)
  from admission(2) have "canStartTask (id_t t) s" by (rule available_canStart)
  then obtain v0 where v0: "map_of (tasks s) (id_t t) = Some v0" "status v0 = Pending"
    by (auto simp: canStartTask_iff)
  have mo: "map_of (tasks (startTask s t)) =
      (map_of (tasks s))(id_t t \<mapsto> t\<lparr>status := Running, startTime := Some (currentTime s)\<rparr>)"
    by (simp add: startTask_def map_set_def update_conv')
  show ?case
  proof (cases "k = id_t t")
    case True
    with admission(3) v0 have "status v = Pending" by simp
    with True show ?thesis by (simp add: mo)
  next
    case False
    with admission(3) show ?thesis by (simp add: mo)
  qed
next
  case (advance s)
  then show ?case by simp
qed

section \<open>Order of admission\<close>

text \<open>
  The keys of a map built by successive \<open>set\<close> calls stand in the order of their first
  occurrence.
\<close>

definition insertion_order :: "string list \<Rightarrow> string list" where
  "insertion_order ks = rev (remdups (rev ks))"









section \<open>The object-oriented implementation\<close>

text \<open>
  The class \<open>TaskQueue\<close> has the four fields of \<open>WorkflowState\<close>, with \<open>nodes\<close> in the
  place of \<open>tasks\<close>, and \<open>TaskNode\<close> has the fields of \<open>TaskState\<close>; its methods are
  embedded over the same records, so that the two implementations can be compared state
  by state. A method mutates the object in place: the model returns the new object. A
  node object is stored under exactly one key of \<open>nodes\<close>, so a reference to a node is
  modelled as the entry, key and node, and an assignment to a field of the node is an
  update of the entry under that key.
\<close>

type_synonym TaskNode = TaskState

type_synonym TaskQueue = WorkflowState

definition TaskNode_constructor :: "Task \<Rightarrow> TaskNode" where
  "TaskNode_constructor task =
     \<lparr>id_t = id_t task, time = time task, deps = deps task,
      status = Pending, startTime = None, endTime = None\<rparr>"

definition TaskQueue_constructor :: "Task list \<Rightarrow> int \<Rightarrow> TaskQueue" where
  "TaskQueue_constructor ts mc =
     \<lparr>tasks = foldl (\<lambda>nodes task. map_set (id_t task) (TaskNode_constructor task) nodes) [] ts,
      currentTime = 0, runningTasks = [], maxConcurrent = mc\<rparr>"

definition TaskQueue_canStartTask :: "string \<Rightarrow> TaskQueue \<Rightarrow> bool" where
  "TaskQueue_canStartTask taskId q =
     (case map_get (tasks q) taskId of
        None \<Rightarrow> False
      | Some task \<Rightarrow>
          if status task \<noteq> Pending then False
          else list_all (\<lambda>depId. case map_get (tasks q) depId of
                                   None \<Rightarrow> False
                                 | Some depTask \<Rightarrow> status depTask = Completed) (deps task))"

definition TaskQueue_getAvailableTasks :: "TaskQueue \<Rightarrow> (string \<times> TaskNode) list" where
  "TaskQueue_getAvailableTasks q =
     filter (\<lambda>entry. TaskQueue_canStartTask (id_t (snd entry)) q) (tasks q)"

text \<open>
  One iteration of the admission loop of \<open>TaskQueue.next\<close>, after its two
  exits.
\<close>

definition TaskQueue_start :: "TaskQueue \<Rightarrow> string \<times> TaskNode \<Rightarrow> TaskQueue" where
  "TaskQueue_start q entry =
     (case entry of (key, nextTask) \<Rightarrow>
        q\<lparr>tasks := map_set key (nextTask\<lparr>status := Running, startTime := Some (currentTime q)\<rparr>) (tasks q),
          runningTasks := set_add (id_t nextTask) (runningTasks q)\<rparr>)"

text \<open>
  The admission loop mutates the node it picked, not the node stored under the picked
  node's identifier. On a state in which some key differs from the identifier of its
  node the loop may pick the same node for ever, so the loop is a partial function.
\<close>

partial_function (option) TaskQueue_admit :: "TaskQueue \<Rightarrow> TaskQueue option" where
  "TaskQueue_admit q =
     (if int (length (runningTasks q)) < maxConcurrent q
      then (case TaskQueue_getAvailableTasks q of
              [] \<Rightarrow> Some q
            | nextTask # _ \<Rightarrow> TaskQueue_admit (TaskQueue_start q nextTask))
      else Some q)"

text \<open>
  \<open>TaskQueue.next\<close>. The completion loop deletes from the set it iterates over, but only
  the element it is visiting, so every element of the set is visited once: its body is
  \<open>completeTask\<close>.
\<close>

definition TaskQueue_next :: "TaskQueue \<Rightarrow> (error + TaskQueue \<times> bool) option" where
  "TaskQueue_next q =
     (case forEach (completeTask (currentTime q)) (runningTasks q) (tasks q, runningTasks q) of
        Inl e \<Rightarrow> Some (Inl e)
      | Inr (nodes, running) \<Rightarrow>
          (case TaskQueue_admit (q\<lparr>tasks := nodes, runningTasks := running\<rparr>) of
             None \<Rightarrow> None
           | Some q2 \<Rightarrow>
               if runningTasks q2 \<noteq> []
               then Some (Inr (q2\<lparr>currentTime := currentTime q2 + 1\<rparr>, True))
               else Some (Inr (q2, list_ex (\<lambda>node. status node \<noteq> Completed) (map snd (tasks q2))))))"

partial_function (option) TaskQueue_runAll :: "TaskQueue \<Rightarrow> (error + TaskQueue) option" where
  "TaskQueue_runAll q =
     (case TaskQueue_next q of
        None \<Rightarrow> None
      | Some (Inl e) \<Rightarrow> Some (Inl e)
      | Some (Inr (q', continue)) \<Rightarrow> if continue then TaskQueue_runAll q' else Some (Inr q'))"

subsection \<open>The two implementations agree on well-formed states\<close>

lemma TaskQueue_constructor_eq: "TaskQueue_constructor ts mc = initializeWorkflow ts mc"
proof -
  have "TaskNode_constructor = createTaskState"
    by (rule ext) (simp add: TaskNode_constructor_def createTaskState_def)
  then show ?thesis
    by (simp add: TaskQueue_constructor_def initializeWorkflow_def new_Map_def foldl_map)
qed

lemma TaskQueue_canStartTask_eq: "TaskQueue_canStartTask k q = canStartTask k q"
  by (cases "map_get (tasks q) k")
    (auto simp: TaskQueue_canStartTask_def canStartTask_def isDependencyCompleted_def)

lemma TaskQueue_available_snd: "map snd (TaskQueue_getAvailableTasks q) = getAvailableTasks q"
  by (simp add: TaskQueue_getAvailableTasks_def getAvailableTasks_def TaskQueue_canStartTask_eq
      filter_map comp_def)

lemma TaskQueue_start_eq:
  assumes wf: "wf_state q" and e: "entry \<in> set (tasks q)"
  shows "TaskQueue_start q entry = startTask q (snd entry)"
proof -
  obtain k v where kv: "entry = (k, v)" by (cases entry)
  from e have "map_of (tasks q) (fst entry) = Some (snd entry)"
    using wf_distinct_keys[OF wf] by (intro map_of_entry)
  with wf have "id_t (snd entry) = fst entry" by (rule wf_id)
  then show ?thesis by (simp add: kv TaskQueue_start_def startTask_def)
qed

lemma TaskQueue_admit_eq:
  assumes "wf_state q"
  shows "TaskQueue_admit q = Some (startNewTasks q)"
  using assms
proof (induction q rule: startNewTasks.induct)
  case (1 q)
  show ?case
  proof (cases "int (length (runningTasks q)) < maxConcurrent q")
    case False
    then show ?thesis by (subst TaskQueue_admit.simps, subst startNewTasks.simps) simp
  next
    case True
    show ?thesis
    proof (cases "TaskQueue_getAvailableTasks q")
      case Nil
      then have "getAvailableTasks q = []" using TaskQueue_available_snd[of q] by simp
      with Nil True show ?thesis by (subst TaskQueue_admit.simps, subst startNewTasks.simps) simp
    next
      case (Cons entry es)
      then have av: "getAvailableTasks q = snd entry # map snd es"
        using TaskQueue_available_snd[of q] by simp
      have "entry \<in> set (TaskQueue_getAvailableTasks q)" using Cons by simp
      then have "entry \<in> set (tasks q)" by (simp add: TaskQueue_getAvailableTasks_def)
      with "1.prems" have st: "TaskQueue_start q entry = startTask q (snd entry)"
        by (rule TaskQueue_start_eq)
      have wf': "wf_state (startTask q (snd entry))" using "1.prems" av by (rule wf_state_admission)
      have "TaskQueue_admit (startTask q (snd entry)) = Some (startNewTasks (startTask q (snd entry)))"
        using True av wf' by (rule "1.IH")
      moreover have "TaskQueue_admit q = TaskQueue_admit (startTask q (snd entry))"
        using True Cons st by (subst TaskQueue_admit.simps) simp
      moreover have "startNewTasks q = startNewTasks (startTask q (snd entry))"
        using True av by (subst startNewTasks.simps) simp
      ultimately show ?thesis by simp
    qed
  qed
qed

lemma TaskQueue_next_eq:
  assumes wf: "wf_state q"
  shows "TaskQueue_next q = Some (next_tick q)"
proof -
  from updateRunningTasks_char[OF wf_running_keys[OF wf]]
  obtain q1 where u: "updateRunningTasks q = Inr q1" by blast
  then obtain nodes running where
    fe: "forEach (completeTask (currentTime q)) (runningTasks q) (tasks q, runningTasks q) = Inr (nodes, running)"
    and q1: "q1 = q\<lparr>tasks := nodes, runningTasks := running\<rparr>"
    by (auto simp: updateRunningTasks_def split: sum.splits)
  have "wf_state q1" using wf u by (rule wf_state_completion)
  then have "TaskQueue_admit q1 = Some (startNewTasks q1)" by (rule TaskQueue_admit_eq)
  then show ?thesis
    using fe u unfolding q1
    by (simp add: TaskQueue_next_def next_tick_def Let_def hasUnfinishedTasks_def)
qed

section \<open>Inputs that are not valid graphs\<close>

definition tasks_cycle :: "Task list" where
  "tasks_cycle =
     [\<lparr>id_t = ''A'', time = 1, deps = [''B'']\<rparr>,
      \<lparr>id_t = ''B'', time = 1, deps = [''A'']\<rparr>]"

definition tasks_unknown :: "Task list" where
  "tasks_unknown = [\<lparr>id_t = ''A'', time = 1, deps = [''X'']\<rparr>]"

lemma runAll_stuck:
  assumes "next_tick s = Inr (s, True)"
  shows "runAll s = None"
proof (rule ccontr)
  assume "runAll s \<noteq> None"
  then obtain y where y: "runAll s = Some y" by blast
  have "s \<noteq> s"
  proof (rule runAll.raw_induct[where P = "\<lambda>x y. x \<noteq> s", OF _ y])
    fix f x r
    assume IH: "\<And>x y. f x = Some y \<Longrightarrow> x \<noteq> s"
      and body: "(case next_tick x of Inl e \<Rightarrow> Some (Inl e)
                  | Inr (state, shouldContinue) \<Rightarrow>
                      if shouldContinue then f state else Some (Inr state)) = Some r"
    show "x \<noteq> s"
    proof
      assume "x = s"
      with body assms have "f s = Some r" by simp
      then have "s \<noteq> s" by (rule IH)
      then show False by simp
    qed
  qed
  then show False by simp
qed

lemma run_fuel_stuck:
  assumes "next_tick s = Inr (s, True)"
  shows "run_fuel n s = None"
  by (induction n) (simp_all add: assms)

lemma TaskQueue_runAll_stuck:
  assumes "TaskQueue_next q = Some (Inr (q, True))"
  shows "TaskQueue_runAll q = None"
proof (rule ccontr)
  assume "TaskQueue_runAll q \<noteq> None"
  then obtain y where y: "TaskQueue_runAll q = Some y" by blast
  have "q \<noteq> q"
  proof (rule TaskQueue_runAll.raw_induct[where P = "\<lambda>x y. x \<noteq> q", OF _ y])
    fix f x r
    assume IH: "\<And>x y. f x = Some y \<Longrightarrow> x \<noteq> q"
      and body: "(case TaskQueue_next x of None \<Rightarrow> None | Some (Inl e) \<Rightarrow> Some (Inl e)
                  | Some (Inr (q', continue)) \<Rightarrow>
                      if continue then f q' else Some (Inr q')) = Some r"
    show "x \<noteq> q"
    proof
      assume "x = q"
      with body assms have "f q = Some r" by simp
      then have "q \<noteq> q" by (rule IH)
      then show False by simp
    qed
  qed
  then show False by simp
qed

lemma cycle_tick:
  "next_tick (initializeWorkflow tasks_cycle 2) = Inr (initializeWorkflow tasks_cycle 2, True)"
  by (simp add: tasks_cycle_def eval_defs)

lemma init_all_pending:
  "list_all (\<lambda>p. status (snd p) = Pending \<and> startTime (snd p) = None \<and> endTime (snd p) = None)
     (tasks (initializeWorkflow ts mc))"
  unfolding list_all_iff
proof
  fix p assume p: "p \<in> set (tasks (initializeWorkflow ts mc))"
  have "distinct (map fst (tasks (initializeWorkflow ts mc)))"
    using wf_state_init by (rule wf_distinct_keys)
  from this p have "map_of (tasks (initializeWorkflow ts mc)) (fst p) = Some (snd p)"
    by (rule map_of_entry)
  from init_entry[OF this] obtain t where "snd p = createTaskState t" by blast
  then show "status (snd p) = Pending \<and> startTime (snd p) = None \<and> endTime (snd p) = None"
    by (simp add: createTaskState_def)
qed

lemma empty_tick: "next_tick (initializeWorkflow [] mc) = Inr (initializeWorkflow [] mc, False)"
  by (simp add: eval_defs)

lemma unknown_dep_not_ready:
  assumes "map_of (tasks s) k = Some v" and "d \<in> set (deps v)" and "map_of (tasks s) d = None"
  shows "\<not> canStartTask k s"
proof
  assume "canStartTask k s"
  then obtain v' where v': "map_of (tasks s) k = Some v'"
    and all: "\<forall>d \<in> set (deps v'). \<exists>vd. map_of (tasks s) d = Some vd \<and> status vd = Completed"
    unfolding canStartTask_iff by blast
  from v' assms(1) have "v' = v" by simp
  with all assms(2) obtain vd where "map_of (tasks s) d = Some vd" by blast
  with assms(3) show False by simp
qed

section \<open>States of the reference run\<close>


definition state_2_running :: WorkflowState where
  "state_2_running =
     \<lparr>tasks =
        [(''A'', \<lparr>id_t = ''A'', time = 3, deps = [], status = Completed,
                  startTime = Some 0, endTime = Some 3\<rparr>),
         (''B'', \<lparr>id_t = ''B'', time = 2, deps = [''A''], status = Running,
                  startTime = Some 3, endTime = None\<rparr>),
         (''C'', \<lparr>id_t = ''C'', time = 1, deps = [''A''], status = Running,
                  startTime = Some 3, endTime = None\<rparr>),
         (''D'', \<lparr>id_t = ''D'', time = 4, deps = [''B'', ''C''], status = Pending,
                  startTime = None, endTime = None\<rparr>),
         (''E'', \<lparr>id_t = ''E'', time = 1, deps = [''D''], status = Pending,
                  startTime = None, endTime = None\<rparr>)],
      currentTime = 4, runningTasks = [''B'', ''C''], maxConcurrent = 2\<rparr>"

lemma state_2_running_eq: "tick_n 4 (initializeWorkflow tasks_2 2) = state_2_running"
  by (simp add: eval_nat_numeral tasks_2_def state_2_running_def eval_defs)

lemma reachable_state_2_running: "reachable tasks_2 2 state_2_running"
  using reachable_tick_n[of tasks_2 2 4] by (simp only: state_2_running_eq)



lemma state_2_later: "tick_n 2 state_2_running =
     \<lparr>tasks =
        [(''A'', \<lparr>id_t = ''A'', time = 3, deps = [], status = Completed,
                  startTime = Some 0, endTime = Some 3\<rparr>),
         (''B'', \<lparr>id_t = ''B'', time = 2, deps = [''A''], status = Completed,
                  startTime = Some 3, endTime = Some 5\<rparr>),
         (''C'', \<lparr>id_t = ''C'', time = 1, deps = [''A''], status = Completed,
                  startTime = Some 3, endTime = Some 4\<rparr>),
         (''D'', \<lparr>id_t = ''D'', time = 4, deps = [''B'', ''C''], status = Running,
                  startTime = Some 5, endTime = None\<rparr>),
         (''E'', \<lparr>id_t = ''E'', time = 1, deps = [''D''], status = Pending,
                  startTime = None, endTime = None\<rparr>)],
      currentTime = 6, runningTasks = [''D''], maxConcurrent = 2\<rparr>"
  by (simp add: eval_nat_numeral state_2_running_def eval_defs)

section \<open>The numbers a run computes\<close>

text \<open>
  The numbers of the source are IEEE doubles, on which the sums of the simulation (the
  clock plus one, a start time plus a duration) are exact as long as the operands and
  the result are integers between 0 and 2 to the power 53. The lemmas of this section
  bound every sum that a terminating run computes by its final clock value.
\<close>

lemma tick_n_stuck: "next_tick s = Inl e \<Longrightarrow> tick_n n s = s"
  by (cases n) simp_all

lemma tick_n_add: "tick_n (a + b) s = tick_n b (tick_n a s)"
proof (induction a arbitrary: s)
  case 0
  then show ?case by simp
next
  case (Suc a)
  show ?case
  proof (cases "next_tick s")
    case (Inl e)
    then show ?thesis by (simp add: tick_n_stuck)
  next
    case (Inr p)
    then show ?thesis by (cases p) (simp add: Suc.IH)
  qed
qed

lemma run_fuel_None_tick:
  assumes "run_fuel k s = None" and "j < k"
  shows "next_tick (tick_n j s) = Inr (tick_n (Suc j) s, True)"
  using assms
proof (induction k arbitrary: s j)
  case 0
  then show ?case by simp
next
  case (Suc k)
  from Suc.prems(1) obtain s1 where nt: "next_tick s = Inr (s1, True)" and r: "run_fuel k s1 = None"
    by (auto split: sum.splits if_splits)
  show ?case
  proof (cases j)
    case 0
    with nt show ?thesis by simp
  next
    case (Suc j')
    with Suc.prems(2) have "j' < k" by simp
    with r have "next_tick (tick_n j' s1) = Inr (tick_n (Suc j') s1, True)" by (rule Suc.IH)
    with nt Suc show ?thesis by simp
  qed
qed

lemma run_fuel_Some_tick:
  assumes "run_fuel k s = None" and "run_fuel (Suc k) s = Some (Inr s')"
  shows "next_tick (tick_n k s) = Inr (s', False)"
  using assms
proof (induction k arbitrary: s)
  case 0
  then show ?case by (auto split: sum.splits if_splits)
next
  case (Suc k)
  from Suc.prems(1) obtain s1 where nt: "next_tick s = Inr (s1, True)" and r: "run_fuel k s1 = None"
    by (auto split: sum.splits if_splits)
  from Suc.prems(2) nt have "run_fuel (Suc k) s1 = Some (Inr s')" by simp
  with r have "next_tick (tick_n k s1) = Inr (s', False)" by (rule Suc.IH)
  with nt show ?case by simp
qed

text \<open>
  A completed task has ended no earlier than its start time plus its duration, and a
  started task keeps its start time.
\<close>

definition work_inv :: "WorkflowState \<Rightarrow> bool" where
  "work_inv s \<longleftrightarrow>
     (\<forall>k v. map_of (tasks s) k = Some v \<and> status v = Completed \<longrightarrow>
        (\<exists>e. endTime v = Some e \<and> num_or_zero (startTime v) + time v \<le> e \<and> e \<le> currentTime s))"

lemma work_inv_step:
  assumes "step s s'" and "wf_state s" and "work_inv s"
  shows "work_inv s'"
  using assms
proof (induction rule: step.induct)
  case (completion s s1)
  note c = completion_char[OF completion(1)]
  show ?case unfolding work_inv_def
  proof (intro allI impI)
    fix k v1 assume h: "map_of (tasks s1) k = Some v1 \<and> status v1 = Completed"
    then obtain v where m: "map_of (tasks s) k = Some v"
      and v1: "v1 = (if k \<in> set (runningTasks s) then finish (currentTime s) v else v)"
      by (auto simp: c(4) split: if_splits)
    show "\<exists>e. endTime v1 = Some e \<and> num_or_zero (startTime v1) + time v1 \<le> e \<and> e \<le> currentTime s1"
    proof (cases "k \<in> set (runningTasks s)")
      case False
      with v1 h m completion(3) show ?thesis unfolding work_inv_def c(1) by auto
    next
      case True
      with m have r: "status v = Running" using wf_running_iff[OF completion(2), of k] by auto
      from True v1 have v1': "v1 = finish (currentTime s) v" by simp
      with h r have d: "done_at (currentTime s) v" by (auto simp: finish_def split: if_splits)
      then show ?thesis unfolding v1' c(1) by (simp add: finish_def done_at_def)
    qed
  qed
next
  case (admission s t rest)
  note a = admission_char[OF admission(3) admission(2)]
  show ?case unfolding work_inv_def
  proof (intro allI impI)
    fix k v1 assume h: "map_of (tasks (startTask s t)) k = Some v1 \<and> status v1 = Completed"
    then have "k \<noteq> id_t t" by (auto simp: a(7))
    with h have "map_of (tasks s) k = Some v1 \<and> status v1 = Completed" by (simp add: a(7))
    with admission(4) show "\<exists>e. endTime v1 = Some e \<and> num_or_zero (startTime v1) + time v1 \<le> e
        \<and> e \<le> currentTime (startTask s t)"
      unfolding work_inv_def a(8) by blast
  qed
next
  case (advance s)
  show ?case unfolding work_inv_def
  proof (intro allI impI)
    fix k v assume "map_of (tasks (s\<lparr>currentTime := currentTime s + 1\<rparr>)) k = Some v \<and> status v = Completed"
    then have "map_of (tasks s) k = Some v \<and> status v = Completed" by simp
    with advance(3) obtain e where "endTime v = Some e" "num_or_zero (startTime v) + time v \<le> e"
      "e \<le> currentTime s" unfolding work_inv_def by blast
    then show "\<exists>e. endTime v = Some e \<and> num_or_zero (startTime v) + time v \<le> e
        \<and> e \<le> currentTime (s\<lparr>currentTime := currentTime s + 1\<rparr>)" by simp
  qed
qed

lemma work_inv_init: "work_inv (initializeWorkflow ts mc)"
  unfolding work_inv_def
proof (intro allI impI)
  fix k v assume h: "map_of (tasks (initializeWorkflow ts mc)) k = Some v \<and> status v = Completed"
  then obtain t where "v = createTaskState t" using init_entry by blast
  with h show "\<exists>e. endTime v = Some e \<and> num_or_zero (startTime v) + time v \<le> e
      \<and> e \<le> currentTime (initializeWorkflow ts mc)"
    by (simp add: createTaskState_def)
qed

lemma reachable_work_inv: "reachable ts mc s \<Longrightarrow> work_inv s"
proof (induction rule: reachable.induct)
  case initial
  show ?case by (rule work_inv_init)
next
  case (after s s')
  from after(2) reachable_wf[OF after(1)] after(3) show ?case by (rule work_inv_step)
qed

lemma step_started_stable:
  assumes "step s s'" and "wf_state s" and "map_of (tasks s) k = Some v" and "status v \<noteq> Pending"
  shows "\<exists>v'. map_of (tasks s') k = Some v' \<and> status v' \<noteq> Pending \<and>
           startTime v' = startTime v \<and> time v' = time v"
  using assms
proof (induction rule: step.induct)
  case (completion s s1)
  note c = completion_char[OF completion(1)]
  show ?case using completion(3,4) by (simp add: c(4) finish_def)
next
  case (admission s t rest)
  note a = admission_char[OF admission(3) admission(2)]
  from a(1,2) admission(4,5) have "k \<noteq> id_t t" by auto
  with admission(4,5) show ?case by (simp add: a(7))
next
  case (advance s)
  then show ?case by simp
qed

lemma wf_state_steps:
  assumes "step\<^sup>*\<^sup>* s s'" and "wf_state s"
  shows "wf_state s'"
  using assms by (induction rule: rtranclp_induct) (auto intro: wf_state_step)

lemma steps_started_stable:
  assumes "step\<^sup>*\<^sup>* s s'" and "wf_state s" and "map_of (tasks s) k = Some v" and "status v \<noteq> Pending"
  shows "\<exists>v'. map_of (tasks s') k = Some v' \<and> status v' \<noteq> Pending \<and>
           startTime v' = startTime v \<and> time v' = time v"
  using assms
proof (induction rule: rtranclp_induct)
  case base
  then show ?case by simp
next
  case (step y z)
  from step.IH[OF step.prems] obtain vy where vy: "map_of (tasks y) k = Some vy"
    "status vy \<noteq> Pending" "startTime vy = startTime v" "time vy = time v" by blast
  have "wf_state y" using step.hyps(1) step.prems(1) by (rule wf_state_steps)
  from step_started_stable[OF step.hyps(2) this vy(1,2)] vy(3,4) show ?case by auto
qed

lemma all_completed:
  assumes "\<not> hasUnfinishedTasks s" and "map_of (tasks s) k = Some v"
  shows "status v = Completed"
proof -
  from assms(2) have "(k, v) \<in> set (tasks s)" by (rule map_of_SomeD)
  then have "v \<in> set (map snd (tasks s))" by force
  with assms(1) show ?thesis by (auto simp: hasUnfinishedTasks_def list_ex_iff)
qed

text \<open>The states at the start of the ticks of a run that stops at tick \<open>k + 1\<close>.\<close>

lemma run_states:
  assumes inv: "run_inv s" and none: "run_fuel k s = None" and j: "j \<le> k"
  shows "run_inv (tick_n j s) \<and> currentTime (tick_n j s) = currentTime s + int j"
  using j
proof (induction j)
  case 0
  with inv show ?case by simp
next
  case (Suc j)
  then have IH: "run_inv (tick_n j s)" "currentTime (tick_n j s) = currentTime s + int j"
    and lt: "j < k" by simp_all
  from none lt have nt: "next_tick (tick_n j s) = Inr (tick_n (Suc j) s, True)"
    by (rule run_fuel_None_tick)
  from tick_progress[OF IH(1)] obtain s' c where "next_tick (tick_n j s) = Inr (s', c)"
    and "run_inv s'"
    and "if c then currentTime s' = currentTime (tick_n j s) + 1 \<and> potential s' + 1 \<le> potential (tick_n j s)
         else currentTime s' = currentTime (tick_n j s) \<and> \<not> hasUnfinishedTasks s'"
    by blast
  with nt have "run_inv (tick_n (Suc j) s)"
    and "currentTime (tick_n (Suc j) s) = currentTime (tick_n j s) + 1" by auto
  with IH(2) show ?case by simp
qed

lemma run_sums_bounded:
  assumes r: "reachable ts mc s" and none: "run_fuel k s = None"
    and some: "run_fuel (Suc k) s = Some (Inr s')" and j: "j \<le> k"
    and m: "map_of (tasks (tick_n j s)) key = Some v" and st: "status v \<noteq> Pending"
  shows "num_or_zero (startTime v) + time v \<le> currentTime s'"
proof -
  have wfj: "wf_state (tick_n j s)"
    using tick_n_steps reachable_wf[OF r] by (rule wf_state_steps)
  from j obtain d where k: "k = j + d" using le_Suc_ex by blast
  have "tick_n k s = tick_n d (tick_n j s)" unfolding k by (rule tick_n_add)
  then have a: "step\<^sup>*\<^sup>* (tick_n j s) (tick_n k s)" by (simp add: tick_n_steps)
  from none some have "next_tick (tick_n k s) = Inr (s', False)" by (rule run_fuel_Some_tick)
  then have b: "step\<^sup>*\<^sup>* (tick_n k s) s'" by (rule next_tick_steps)
  from a b have ab: "step\<^sup>*\<^sup>* (tick_n j s) s'" by simp
  from steps_started_stable[OF ab wfj m st] obtain v' where v': "map_of (tasks s') key = Some v'"
    "startTime v' = startTime v" "time v' = time v" by blast
  have "\<not> hasUnfinishedTasks s'"
    using \<open>next_tick (tick_n k s) = Inr (s', False)\<close>
    by (auto simp: next_tick_def Let_def split: sum.splits if_splits)
  then have c: "status v' = Completed" using v'(1) by (rule all_completed)
  have "reachable ts mc (tick_n j s)" using tick_n_steps r by (rule reachable_steps)
  with ab have "reachable ts mc s'" by (rule reachable_steps)
  then have "work_inv s'" by (rule reachable_work_inv)
  with v'(1) c obtain e where "num_or_zero (startTime v') + time v' \<le> e" "e \<le> currentTime s'"
    unfolding work_inv_def by blast
  with v'(2,3) show ?thesis by simp
qed

definition nonneg_inv :: "WorkflowState \<Rightarrow> bool" where
  "nonneg_inv s \<longleftrightarrow>
     0 \<le> currentTime s \<and> (\<forall>k v. map_of (tasks s) k = Some v \<longrightarrow> 0 \<le> num_or_zero (startTime v))"

lemma nonneg_inv_step:
  assumes "step s s'" and "nonneg_inv s"
  shows "nonneg_inv s'"
  using assms
proof (induction rule: step.induct)
  case (completion s s1)
  note c = completion_char[OF completion(1)]
  have "0 \<le> num_or_zero (startTime v1)" if "map_of (tasks s1) k = Some v1" for k v1
  proof -
    from that obtain v where "map_of (tasks s) k = Some v" "startTime v1 = startTime v"
      by (auto simp: c(4) finish_def split: if_splits)
    with completion(2) show ?thesis unfolding nonneg_inv_def by auto
  qed
  with completion(2) show ?case unfolding nonneg_inv_def c(1) by blast
next
  case (admission s t rest)
  have mo: "map_of (tasks (startTask s t)) =
      (map_of (tasks s))(id_t t \<mapsto> t\<lparr>status := Running, startTime := Some (currentTime s)\<rparr>)"
    by (simp add: startTask_def map_set_def update_conv')
  have ct: "currentTime (startTask s t) = currentTime s" by (simp add: startTask_def)
  have "0 \<le> num_or_zero (startTime v1)" if "map_of (tasks (startTask s t)) k = Some v1" for k v1
  proof (cases "k = id_t t")
    case True
    with that have "startTime v1 = Some (currentTime s)" by (auto simp: mo)
    with admission(3) show ?thesis by (simp add: nonneg_inv_def num_or_zero_def)
  next
    case False
    with that have "map_of (tasks s) k = Some v1" by (simp add: mo)
    with admission(3) show ?thesis unfolding nonneg_inv_def by blast
  qed
  with admission(3) show ?case unfolding nonneg_inv_def ct by blast
next
  case (advance s)
  then show ?case by (simp add: nonneg_inv_def)
qed

lemma reachable_nonneg_inv: "reachable ts mc s \<Longrightarrow> nonneg_inv s"
proof (induction rule: reachable.induct)
  case initial
  have "0 \<le> num_or_zero (startTime v)" if "map_of (tasks (initializeWorkflow ts mc)) k = Some v" for k v
  proof -
    from init_entry[OF that] obtain t where "v = createTaskState t" by blast
    then show ?thesis by (simp add: createTaskState_def num_or_zero_def)
  qed
  then show ?case unfolding nonneg_inv_def by (simp add: initializeWorkflow_def)
next
  case (after s s')
  from after(2,3) show ?case by (rule nonneg_inv_step)
qed

section \<open>The claims\<close>

text \<open>
  C1. The reference scenario: for the task list A(3), B(2, after A), C(1, after A),
  D(4, after B and C), E(1, after D) and maximum concurrency 2, the driver returns the
  state in which A ran from 0 to 3, B from 3 to 5, C from 3 to 4, D from 5 to 9 and
  E from 9 to 10, and the final current time is 10.
\<close>

theorem reference_scenario:
  "runAll (initializeWorkflow tasks_2 2) = Some (Inr
     \<lparr>tasks =
        [(''A'', \<lparr>id_t = ''A'', time = 3, deps = [], status = Completed,
                  startTime = Some 0, endTime = Some 3\<rparr>),
         (''B'', \<lparr>id_t = ''B'', time = 2, deps = [''A''], status = Completed,
                  startTime = Some 3, endTime = Some 5\<rparr>),
         (''C'', \<lparr>id_t = ''C'', time = 1, deps = [''A''], status = Completed,
                  startTime = Some 3, endTime = Some 4\<rparr>),
         (''D'', \<lparr>id_t = ''D'', time = 4, deps = [''B'', ''C''], status = Completed,
                  startTime = Some 5, endTime = Some 9\<rparr>),
         (''E'', \<lparr>id_t = ''E'', time = 1, deps = [''D''], status = Completed,
                  startTime = Some 9, endTime = Some 10\<rparr>)],
      currentTime = 10, runningTasks = [], maxConcurrent = 2\<rparr>)"
  by (rule run_fuel_runAll[of 11]) (simp add: eval_nat_numeral tasks_2_def eval_defs)

text \<open>
  C2. In every reachable state: a pass can only turn an entry to Running if that entry
  was Pending with every dependency identifier mapped to a Completed task (otherwise it
  was already Running); every start time is at least the end time of each dependency,
  all of which are Completed; and a Pending task without dependencies is ready.
\<close>

theorem dependency_safety:
  assumes "reachable ts mc s"
  shows "(\<forall>s' k v'. step s s' \<and> map_of (tasks s') k = Some v' \<and> status v' = Running \<longrightarrow>
            (\<exists>v. map_of (tasks s) k = Some v \<and>
               (status v = Running \<or>
                (status v = Pending \<and>
                 (\<forall>d \<in> set (deps v). \<exists>vd. map_of (tasks s) d = Some vd \<and> status vd = Completed)))))
       \<and> (\<forall>k v b d. map_of (tasks s) k = Some v \<and> startTime v = Some b \<and> d \<in> set (deps v) \<longrightarrow>
            (\<exists>vd e. map_of (tasks s) d = Some vd \<and> status vd = Completed \<and>
               endTime vd = Some e \<and> e \<le> b))
       \<and> (\<forall>k v. map_of (tasks s) k = Some v \<and> status v = Pending \<and> deps v = [] \<longrightarrow>
            canStartTask k s)"
proof (intro conjI allI impI)
  from assms have wf: "wf_state s" by (rule reachable_wf)
  from assms have inv: "sched_inv s" by (rule reachable_sched_inv)
  {
    fix s' k v'
    assume h: "step s s' \<and> map_of (tasks s') k = Some v' \<and> status v' = Running"
    then have "\<exists>v. map_of (tasks s) k = Some v \<and>
           (status v = Running \<or>
            (status v = Pending \<and> startTime v' = Some (currentTime s) \<and>
             (\<forall>d \<in> set (deps v). \<exists>vd. map_of (tasks s) d = Some vd \<and> status vd = Completed)))"
      using wf step_running_origin by blast
    then show "\<exists>v. map_of (tasks s) k = Some v \<and>
               (status v = Running \<or>
                (status v = Pending \<and>
                 (\<forall>d \<in> set (deps v). \<exists>vd. map_of (tasks s) d = Some vd \<and> status vd = Completed)))"
      by blast
  next
    fix k v b d
    assume "map_of (tasks s) k = Some v \<and> startTime v = Some b \<and> d \<in> set (deps v)"
    then show "\<exists>vd e. map_of (tasks s) d = Some vd \<and> status vd = Completed \<and>
               endTime vd = Some e \<and> e \<le> b"
      using started_deps_done[OF inv] by blast
  next
    fix k v
    assume "map_of (tasks s) k = Some v \<and> status v = Pending \<and> deps v = []"
    then show "canStartTask k s" by (simp add: canStartTask_iff)
  }
qed

text \<open>
  At the start of the tick at time 4 of the reference run, B runs since time 3 and its
  dependency A has ended at 3.
\<close>

theorem dependency_safety_witness:
  "reachable tasks_2 2 state_2_running
   \<and> map_of (tasks state_2_running) ''B'' =
        Some \<lparr>id_t = ''B'', time = 2, deps = [''A''], status = Running,
              startTime = Some 3, endTime = None\<rparr>
   \<and> (\<exists>vd e. map_of (tasks state_2_running) ''A'' = Some vd \<and> status vd = Completed \<and>
          endTime vd = Some e \<and> e \<le> 3)"
proof -
  have m: "map_of (tasks state_2_running) ''B'' =
        Some \<lparr>id_t = ''B'', time = 2, deps = [''A''], status = Running,
              startTime = Some 3, endTime = None\<rparr>"
    by (simp add: state_2_running_def)
  from dependency_safety[OF reachable_state_2_running]
  have "\<forall>k v b d. map_of (tasks state_2_running) k = Some v \<and> startTime v = Some b \<and> d \<in> set (deps v) \<longrightarrow>
            (\<exists>vd e. map_of (tasks state_2_running) d = Some vd \<and> status vd = Completed \<and>
               endTime vd = Some e \<and> e \<le> b)" by blast
  from this[rule_format, of "''B''" _ 3 "''A''"] m
  have "\<exists>vd e. map_of (tasks state_2_running) ''A'' = Some vd \<and> status vd = Completed \<and>
          endTime vd = Some e \<and> e \<le> 3" by simp
  with reachable_state_2_running m show ?thesis by blast
qed

text \<open>
  C3. For every input whose maximum concurrency is an integer of at least 0, so for every
  valid configuration (a positive integer), the running set of every reachable state,
  between any two passes of any tick, has at most as many members as the configured
  maximum; so has the number of entries whose status is Running. The object-oriented
  implementation starts from the same state and its tick on a reachable state is the
  tick of the functional one, so its states are reachable states too.
\<close>

theorem concurrency_bound:
  assumes "reachable ts mc s" and "0 \<le> mc"
  shows "int (length (runningTasks s)) \<le> mc
       \<and> maxConcurrent s = mc
       \<and> int (length (filter (\<lambda>p. status (snd p) = Running) (tasks s))) \<le> mc
       \<and> TaskQueue_constructor ts mc = initializeWorkflow ts mc
       \<and> TaskQueue_next s = Some (next_tick s)"
proof -
  from assms have b: "maxConcurrent s = mc \<and> int (length (runningTasks s)) \<le> maxConcurrent s"
    by (rule reachable_running_bound)
  from assms(1) have "wf_state s" by (rule reachable_wf)
  then have "length (filter (\<lambda>p. status (snd p) = Running) (tasks s)) = length (runningTasks s)"
    by (rule running_count)
  with b TaskQueue_constructor_eq[of ts mc] TaskQueue_next_eq[OF \<open>wf_state s\<close>]
  show ?thesis by simp
qed

text \<open>
  At the start of the tick at time 4 of the reference run, two tasks run under a maximum
  of 2.
\<close>

theorem concurrency_bound_witness:
  "reachable tasks_2 2 state_2_running \<and> (0::int) \<le> 2
   \<and> int (length (runningTasks state_2_running)) \<le> 2
   \<and> maxConcurrent state_2_running = 2
   \<and> int (length (filter (\<lambda>p. status (snd p) = Running) (tasks state_2_running))) \<le> 2
   \<and> TaskQueue_next state_2_running = Some (next_tick state_2_running)"
proof -
  have "(0::int) \<le> 2" by simp
  from concurrency_bound[OF reachable_state_2_running this] reachable_state_2_running
  show ?thesis by simp
qed

text \<open>
  C4. The claim is that construction fails with an InvalidGraph error on a cycle or an
  unknown dependency. The code has no such check: on the two-task cycle, and on a task
  with an unknown dependency, both constructors return the initial state with every
  task Pending, and the simulation starts: the first tick runs and reports "continue"
  without changing the state.
\<close>

theorem cycle_not_rejected:
  "initializeWorkflow tasks_cycle 2 =
     \<lparr>tasks = [(''A'', \<lparr>id_t = ''A'', time = 1, deps = [''B''], status = Pending,
                       startTime = None, endTime = None\<rparr>),
               (''B'', \<lparr>id_t = ''B'', time = 1, deps = [''A''], status = Pending,
                       startTime = None, endTime = None\<rparr>)],
      currentTime = 0, runningTasks = [], maxConcurrent = 2\<rparr>
   \<and> TaskQueue_constructor tasks_cycle 2 = initializeWorkflow tasks_cycle 2
   \<and> next_tick (initializeWorkflow tasks_cycle 2) = Inr (initializeWorkflow tasks_cycle 2, True)
   \<and> initializeWorkflow tasks_unknown 2 =
     \<lparr>tasks = [(''A'', \<lparr>id_t = ''A'', time = 1, deps = [''X''], status = Pending,
                       startTime = None, endTime = None\<rparr>)],
      currentTime = 0, runningTasks = [], maxConcurrent = 2\<rparr>
   \<and> next_tick (initializeWorkflow tasks_unknown 2) = Inr (initializeWorkflow tasks_unknown 2, True)"
  by (simp add: TaskQueue_constructor_eq tasks_cycle_def tasks_unknown_def eval_defs)

text \<open>
  C5 (amended). For every acyclic input graph in which every dependency identifier
  resolves to a declared task, every duration is an integer of at least 1 and the sum of
  all durations is below 2 to the power 53, and every maximum concurrency of at least 1,
  the driver returns: some number \<open>k\<close> of ticks, at most the sum of all durations,
  report "continue", and tick \<open>k + 1\<close> reports "stop" with every task completed;
  \<open>k\<close> is the final current time. At the start of tick \<open>j + 1\<close> the clock is \<open>j\<close>,
  and for every running task the start time is at least 0 and the start time plus the
  duration is at most \<open>k\<close>: every sum of the run is an integer below 2 to the power 53,
  where the arithmetic of the source is exact.
\<close>

theorem termination_bound:
  assumes "acyclic (task_graph ts)" and "resolvable ts" and "positive_durations ts" and "1 \<le> mc"
    and "total_duration ts < 2 ^ 53"
  shows "\<exists>k s'. int k \<le> total_duration ts
           \<and> run_fuel k (initializeWorkflow ts mc) = None
           \<and> run_fuel (Suc k) (initializeWorkflow ts mc) = Some (Inr s')
           \<and> runAll (initializeWorkflow ts mc) = Some (Inr s')
           \<and> currentTime s' = int k
           \<and> \<not> hasUnfinishedTasks s'
           \<and> int k < 2 ^ 53
           \<and> (\<forall>j < k. next_tick (tick_n j (initializeWorkflow ts mc))
                        = Inr (tick_n (Suc j) (initializeWorkflow ts mc), True))
           \<and> next_tick (tick_n k (initializeWorkflow ts mc)) = Inr (s', False)
           \<and> (\<forall>j \<le> k. currentTime (tick_n j (initializeWorkflow ts mc)) = int j
                \<and> (\<forall>key v. map_of (tasks (tick_n j (initializeWorkflow ts mc))) key = Some v
                        \<and> status v = Running \<longrightarrow>
                      0 \<le> num_or_zero (startTime v) \<and> 1 \<le> time v
                      \<and> num_or_zero (startTime v) + time v \<le> int k))"
proof -
  let ?s = "initializeWorkflow ts mc"
  have inv: "run_inv ?s"
    using wf_state_init init_graph_ok[OF assms(1-4)] by (simp add: run_inv_def)
  have p: "potential ?s \<le> total_duration ts" using assms(3) by (rule init_potential)
  have p0: "0 \<le> potential ?s" using inv by (simp add: run_inv_def potential_nonneg)
  with p have "potential ?s \<le> int (nat (total_duration ts))" by simp
  from run_terminates[OF inv this] obtain k s' where k: "k \<le> nat (total_duration ts)"
    "run_fuel k ?s = None" "run_fuel (Suc k) ?s = Some (Inr s')"
    "currentTime s' = currentTime ?s + int k" "\<not> hasUnfinishedTasks s'" by blast
  from k(1) p p0 have le: "int k \<le> total_duration ts" by linarith
  with assms(5) have lt: "int k < 2 ^ 53" by simp
  from k(3) have ra: "runAll ?s = Some (Inr s')" by (rule run_fuel_runAll)
  from k(4) have ct: "currentTime s' = int k" by (simp add: initializeWorkflow_def)
  have ticks: "\<forall>j < k. next_tick (tick_n j ?s) = Inr (tick_n (Suc j) ?s, True)"
    using run_fuel_None_tick[OF k(2)] by blast
  have last: "next_tick (tick_n k ?s) = Inr (s', False)"
    using k(2,3) by (rule run_fuel_Some_tick)
  have states: "\<forall>j \<le> k. currentTime (tick_n j ?s) = int j
                \<and> (\<forall>key v. map_of (tasks (tick_n j ?s)) key = Some v \<and> status v = Running \<longrightarrow>
                      0 \<le> num_or_zero (startTime v) \<and> 1 \<le> time v
                      \<and> num_or_zero (startTime v) + time v \<le> int k)"
  proof (intro allI impI conjI)
    fix j assume j: "j \<le> k"
    from run_states[OF inv k(2) j] show "currentTime (tick_n j ?s) = int j"
      by (simp add: initializeWorkflow_def)
  next
    fix j key v
    assume j: "j \<le> k" and h: "map_of (tasks (tick_n j ?s)) key = Some v \<and> status v = Running"
    then have m: "map_of (tasks (tick_n j ?s)) key = Some v" and np: "status v \<noteq> Pending" by simp_all
    from run_sums_bounded[OF reachable.initial k(2) k(3) j m np] ct
    show "num_or_zero (startTime v) + time v \<le> int k" by simp
    from run_states[OF inv k(2) j] have "graph_ok (tick_n j ?s)" by (simp add: run_inv_def)
    with m show "1 \<le> time v" unfolding graph_ok_def by blast
    have "nonneg_inv (tick_n j ?s)" using reachable_tick_n by (rule reachable_nonneg_inv)
    with m show "0 \<le> num_or_zero (startTime v)" unfolding nonneg_inv_def by blast
  qed
  from le k(2,3) ra ct k(5) lt ticks last states show ?thesis by blast
qed

text \<open>
  The bound as the specification states it, on the number of ticks until "stop" is
  reported, fails for a single task of duration 3: the first three ticks all report
  "continue". With a duration of 0 even one more tick than the sum of durations does
  not suffice.
\<close>

theorem termination_bound_counterexample:
  "acyclic (task_graph task_single) \<and> resolvable task_single
   \<and> total_duration task_single = 3
   \<and> run_fuel 3 (initializeWorkflow task_single 1) = None
   \<and> run_fuel 4 (initializeWorkflow task_single 1) = Some (Inr
        \<lparr>tasks = [(''A'', \<lparr>id_t = ''A'', time = 3, deps = [], status = Completed,
                     startTime = Some 0, endTime = Some 3\<rparr>)],
         currentTime = 3, runningTasks = [], maxConcurrent = 1\<rparr>)
   \<and> acyclic (task_graph task_zero) \<and> resolvable task_zero
   \<and> total_duration task_zero = 0
   \<and> run_fuel 1 (initializeWorkflow task_zero 1) = None
   \<and> run_fuel 2 (initializeWorkflow task_zero 1) = Some (Inr
        \<lparr>tasks = [(''A'', \<lparr>id_t = ''A'', time = 0, deps = [], status = Completed,
                     startTime = Some 0, endTime = Some 1\<rparr>)],
         currentTime = 1, runningTasks = [], maxConcurrent = 1\<rparr>)"
  by (simp add: task_single_def task_zero_def task_graph_def resolvable_def
      total_duration_def acyclic_def eval_nat_numeral eval_defs)

text \<open>The reference scenario satisfies the hypotheses.\<close>

theorem termination_bound_witness:
  "acyclic (task_graph tasks_2) \<and> resolvable tasks_2 \<and> positive_durations tasks_2 \<and> (1::int) \<le> 2
   \<and> total_duration tasks_2 < 2 ^ 53
   \<and> (\<exists>k s'. int k \<le> total_duration tasks_2
           \<and> run_fuel k (initializeWorkflow tasks_2 2) = None
           \<and> run_fuel (Suc k) (initializeWorkflow tasks_2 2) = Some (Inr s')
           \<and> runAll (initializeWorkflow tasks_2 2) = Some (Inr s')
           \<and> currentTime s' = int k
           \<and> \<not> hasUnfinishedTasks s'
           \<and> int k < 2 ^ 53
           \<and> next_tick (tick_n k (initializeWorkflow tasks_2 2)) = Inr (s', False))"
proof -
  have r: "resolvable tasks_2" by (simp add: resolvable_def tasks_2_def)
  have p: "positive_durations tasks_2" by (simp add: positive_durations_def tasks_2_def)
  have m: "(1::int) \<le> 2" by simp
  have t: "total_duration tasks_2 < 2 ^ 53" by (simp add: total_duration_def tasks_2_def)
  from termination_bound[OF acyclic_tasks_2 r p m t] acyclic_tasks_2 r p m t show ?thesis by blast
qed

text \<open>
  C6. The claim is that the driver never loops for ever. The code has no bound on the
  number of ticks: on the two-task cycle every tick reports "continue" from the same
  state, so no amount of fuel is enough and neither driver returns.
\<close>

theorem cycle_never_returns:
  "runAll (initializeWorkflow tasks_cycle 2) = None
   \<and> (\<forall>n. run_fuel n (initializeWorkflow tasks_cycle 2) = None)
   \<and> TaskQueue_runAll (TaskQueue_constructor tasks_cycle 2) = None"
proof -
  have "TaskQueue_next (initializeWorkflow tasks_cycle 2) = Some (Inr (initializeWorkflow tasks_cycle 2, True))"
    using TaskQueue_next_eq[OF wf_state_init] cycle_tick by simp
  then have "TaskQueue_runAll (initializeWorkflow tasks_cycle 2) = None"
    by (rule TaskQueue_runAll_stuck)
  with runAll_stuck[OF cycle_tick] run_fuel_stuck[OF cycle_tick] show ?thesis
    by (simp add: TaskQueue_constructor_eq)
qed

text \<open>
  C7. Along any sequence of passes (so along every tick and every run, from any state),
  the entry of each task stays in the map and its status never goes back: a Completed
  task stays Completed, and a Running task never becomes Pending again.
\<close>

theorem status_monotonic:
  assumes "step\<^sup>*\<^sup>* s s'" and "map_of (tasks s) k = Some v"
  shows "\<exists>v'. map_of (tasks s') k = Some v' \<and>
           (status v = Completed \<longrightarrow> status v' = Completed) \<and>
           (status v = Running \<longrightarrow> status v' \<noteq> Pending)"
  using assms
proof (induction rule: rtranclp_induct)
  case base
  then show ?case by simp
next
  case (step y z)
  from step.IH[OF step.prems] obtain vy where vy: "map_of (tasks y) k = Some vy"
    "status v = Completed \<longrightarrow> status vy = Completed" "status v = Running \<longrightarrow> status vy \<noteq> Pending"
    by blast
  from step_status_mono[OF step.hyps(2) vy(1)] obtain vz where vz: "map_of (tasks z) k = Some vz"
    "status vy = Completed \<longrightarrow> status vz = Completed" "status vy = Running \<longrightarrow> status vz \<noteq> Pending"
    by blast
  have "status v = Running \<longrightarrow> status vz \<noteq> Pending"
    using vy(3) vz(2,3) by (cases "status vy") auto
  with vy(2) vz(1,2) show ?case by blast
qed

text \<open>Two ticks after time 4 of the reference run, A is still Completed.\<close>

theorem status_monotonic_witness:
  "step\<^sup>*\<^sup>* state_2_running (tick_n 2 state_2_running)
   \<and> map_of (tasks state_2_running) ''A'' =
        Some \<lparr>id_t = ''A'', time = 3, deps = [], status = Completed,
              startTime = Some 0, endTime = Some 3\<rparr>
   \<and> (\<exists>v'. map_of (tasks (tick_n 2 state_2_running)) ''A'' = Some v' \<and> status v' = Completed)"
proof -
  have s: "step\<^sup>*\<^sup>* state_2_running (tick_n 2 state_2_running)" by (rule tick_n_steps)
  have m: "map_of (tasks state_2_running) ''A'' =
        Some \<lparr>id_t = ''A'', time = 3, deps = [], status = Completed,
              startTime = Some 0, endTime = Some 3\<rparr>"
    by (simp add: state_2_running_def)
  from status_monotonic[OF s m]
  have "\<exists>v'. map_of (tasks (tick_n 2 state_2_running)) ''A'' = Some v' \<and> status v' = Completed"
    by simp
  with s m show ?thesis by blast
qed

text \<open>
  C8 (amended). Initialization never fails, whatever the maximum concurrency: it
  returns the state with time 0, the given maximum concurrency, an empty running set
  and every declared task Pending, in insertion order; both constructors agree. For the
  empty task list the first tick reports "stop" at once and the run returns the initial
  state.
\<close>

theorem initialization_total:
  "currentTime (initializeWorkflow ts mc) = 0
   \<and> runningTasks (initializeWorkflow ts mc) = []
   \<and> maxConcurrent (initializeWorkflow ts mc) = mc
   \<and> map fst (tasks (initializeWorkflow ts mc)) = insertion_order (map id_t ts)
   \<and> list_all (\<lambda>p. status (snd p) = Pending \<and> startTime (snd p) = None \<and> endTime (snd p) = None)
        (tasks (initializeWorkflow ts mc))
   \<and> TaskQueue_constructor ts mc = initializeWorkflow ts mc
   \<and> next_tick (initializeWorkflow [] mc) = Inr (initializeWorkflow [] mc, False)
   \<and> runAll (initializeWorkflow [] mc) = Some (Inr (initializeWorkflow [] mc))"
proof -
  have "run_fuel 1 (initializeWorkflow [] mc) = Some (Inr (initializeWorkflow [] mc))"
    by (simp add: empty_tick)
  then have "runAll (initializeWorkflow [] mc) = Some (Inr (initializeWorkflow [] mc))"
    by (rule run_fuel_runAll)
  then show ?thesis
    using init_all_pending[of ts mc] empty_tick[of mc] TaskQueue_constructor_eq[of ts mc]
      init_keys[of ts mc]
    by (simp add: initializeWorkflow_def insertion_order_def)
qed

text \<open>
  The first half of the statement as the specification has it fails: with a maximum
  concurrency of 0 or of -1 both constructors return a state.
\<close>

theorem initialization_counterexample:
  "initializeWorkflow tasks_unknown 0 =
     \<lparr>tasks = [(''A'', \<lparr>id_t = ''A'', time = 1, deps = [''X''], status = Pending,
                       startTime = None, endTime = None\<rparr>)],
      currentTime = 0, runningTasks = [], maxConcurrent = 0\<rparr>
   \<and> initializeWorkflow [] (- 1) =
     \<lparr>tasks = [], currentTime = 0, runningTasks = [], maxConcurrent = - 1\<rparr>
   \<and> TaskQueue_constructor tasks_unknown 0 = initializeWorkflow tasks_unknown 0"
  by (simp add: TaskQueue_constructor_eq tasks_unknown_def eval_defs)



text \<open>
  C10. A lookup of an identifier that is not in the map evaluates to false, in both
  implementations: an unknown dependency is not completed, an unknown task cannot start,
  and a task with an unknown dependency cannot start. In every reachable state such a
  task is Pending, has no start time, is not in the running set and is not among the
  available tasks of either implementation.
\<close>

theorem unknown_dependency_never_ready:
  "(map_of tks d = None \<longrightarrow> \<not> isDependencyCompleted d tks)
   \<and> (map_of (tasks s) k = None \<longrightarrow> \<not> canStartTask k s \<and> \<not> TaskQueue_canStartTask k s)
   \<and> (map_of (tasks s) k = Some v \<and> d \<in> set (deps v) \<and> map_of (tasks s) d = None \<longrightarrow>
        \<not> canStartTask k s \<and> \<not> TaskQueue_canStartTask k s)
   \<and> (reachable ts mc s \<and> map_of (tasks s) k = Some v \<and> d \<in> set (deps v)
        \<and> map_of (tasks s) d = None \<longrightarrow>
        status v = Pending \<and> startTime v = None \<and> k \<notin> set (runningTasks s)
        \<and> v \<notin> set (getAvailableTasks s) \<and> (k, v) \<notin> set (TaskQueue_getAvailableTasks s))"
proof (intro conjI impI)
  assume "map_of tks d = None"
  then show "\<not> isDependencyCompleted d tks" by (simp add: isDependencyCompleted_def map_get_def)
next
  assume "map_of (tasks s) k = None"
  then show "\<not> canStartTask k s" by (simp add: canStartTask_iff)
next
  assume "map_of (tasks s) k = None"
  then show "\<not> TaskQueue_canStartTask k s" by (simp add: TaskQueue_canStartTask_eq canStartTask_iff)
next
  assume h: "map_of (tasks s) k = Some v \<and> d \<in> set (deps v) \<and> map_of (tasks s) d = None"
  then show "\<not> canStartTask k s" using unknown_dep_not_ready by blast
next
  assume h: "map_of (tasks s) k = Some v \<and> d \<in> set (deps v) \<and> map_of (tasks s) d = None"
  then show "\<not> TaskQueue_canStartTask k s"
    unfolding TaskQueue_canStartTask_eq using unknown_dep_not_ready by blast
next
  assume h: "reachable ts mc s \<and> map_of (tasks s) k = Some v \<and> d \<in> set (deps v)
        \<and> map_of (tasks s) d = None"
  then have r: "reachable ts mc s" by simp
  from r have wf: "wf_state s" by (rule reachable_wf)
  from r have inv: "sched_inv s" by (rule reachable_sched_inv)
  from inv h have ok: "entry_ok s v" unfolding sched_inv_def by blast
  have "\<not> deps_done_by s v b" for b using h unfolding deps_done_by_def by force
  with ok show p: "status v = Pending"
    by (cases "status v") (auto simp: entry_ok_def)
  with ok show "startTime v = None" by (simp add: entry_ok_def)
  from p h show "k \<notin> set (runningTasks s)" using wf_running_iff[OF wf, of k] by auto
  from wf h have idk: "id_t v = k" by (simp add: wf_id)
  from h have nc: "\<not> canStartTask k s" using unknown_dep_not_ready by blast
  with idk show "v \<notin> set (getAvailableTasks s)" by (simp add: getAvailableTasks_def)
  from nc idk show "(k, v) \<notin> set (TaskQueue_getAvailableTasks s)"
    by (simp add: TaskQueue_getAvailableTasks_def TaskQueue_canStartTask_eq)
qed

text \<open>A task that depends on the undeclared identifier X is never ready.\<close>

theorem unknown_dependency_witness:
  "reachable tasks_unknown 2 (initializeWorkflow tasks_unknown 2)
   \<and> map_of (tasks (initializeWorkflow tasks_unknown 2)) ''A'' =
        Some \<lparr>id_t = ''A'', time = 1, deps = [''X''], status = Pending,
              startTime = None, endTime = None\<rparr>
   \<and> map_of (tasks (initializeWorkflow tasks_unknown 2)) ''X'' = None
   \<and> \<not> isDependencyCompleted ''X'' (tasks (initializeWorkflow tasks_unknown 2))
   \<and> \<not> canStartTask ''A'' (initializeWorkflow tasks_unknown 2)
   \<and> \<not> TaskQueue_canStartTask ''A'' (initializeWorkflow tasks_unknown 2)
   \<and> ''A'' \<notin> set (runningTasks (initializeWorkflow tasks_unknown 2))"
proof -
  let ?s = "initializeWorkflow tasks_unknown 2"
  let ?v = "\<lparr>id_t = ''A'', time = 1, deps = [''X''], status = Pending,
              startTime = None, endTime = None\<rparr>"
  have r: "reachable tasks_unknown 2 ?s" by (rule reachable.initial)
  have m: "map_of (tasks ?s) ''A'' = Some ?v"
    by (simp add: tasks_unknown_def eval_defs)
  have x: "map_of (tasks ?s) ''X'' = None"
    by (simp add: tasks_unknown_def eval_defs)
  have d: "''X'' \<in> set (deps ?v)" by simp
  note u = unknown_dependency_never_ready[of "tasks ?s" "''X''" ?s "''A''" ?v tasks_unknown 2]
  from u x have "\<not> isDependencyCompleted ''X'' (tasks ?s)" by blast
  moreover from u m d x have "\<not> canStartTask ''A'' ?s \<and> \<not> TaskQueue_canStartTask ''A'' ?s" by blast
  moreover from u r m d x have "''A'' \<notin> set (runningTasks ?s)" by blast
  ultimately show ?thesis using r m x by blast
qed

end
